theory Spec2Isabelle
  imports Complex_Main "HOL-Library.Word"
begin

section \<open>Go errors and time\<close>

text \<open>
  A Go \<open>error\<close> value is modelled by the text its \<open>Error()\<close> method returns; the
  \<open>nil\<close> error is \<open>None\<close>.  \<open>fmt.Errorf("prefix: %w", err)\<close> yields the
  prefix followed by the text of the wrapped error.
\<close>

type_synonym go_error = "string option"

text \<open>
  Instants (\<open>time.Time\<close>) and durations (\<open>time.Duration\<close>) are integers counting
  nanoseconds.  A duration is a signed 64-bit value; \<open>Time.Sub\<close> saturates at both ends.
\<close>

type_synonym instant = int
type_synonym duration = int

definition Millisecond :: duration where
  "Millisecond = 1000000"

definition Second :: duration where
  "Second = 1000000000"

definition maxDuration :: duration where
  "maxDuration = 2 ^ 63 - 1"

definition minDuration :: duration where
  "minDuration = - (2 ^ 63)"

definition time_Sub :: "instant \<Rightarrow> instant \<Rightarrow> duration" where
  "time_Sub t u =
     (if t - u > maxDuration then maxDuration
      else if t - u < minDuration then minDuration
      else t - u)"

text \<open>\<open>time.Since(t)\<close> read at the instant \<open>now\<close>.\<close>

definition time_Since :: "instant \<Rightarrow> instant \<Rightarrow> duration" where
  "time_Since now t = time_Sub now t"

section \<open>Error classification (circuitbreaker.go)\<close>

text \<open>
  \<open>searchString\<close>: the loop \<open>for i := 0; i <= len(s)-len(substr); i++\<close>, comparing the
  slice \<open>s[i:i+len(substr)]\<close> with \<open>substr\<close>.  The loop condition is written with the
  subtraction moved to the other side, so that it stays within the naturals.
\<close>

function searchString_from :: "string \<Rightarrow> string \<Rightarrow> nat \<Rightarrow> bool" where
  "searchString_from s substr i =
     (if i + length substr \<le> length s
      then (if take (length substr) (drop i s) = substr then True
            else searchString_from s substr (i + 1))
      else False)"
  by pat_completeness auto
termination
  by (relation "measure (\<lambda>(s, substr, i). length s + 1 - (i + length substr))") auto

definition searchString :: "string \<Rightarrow> string \<Rightarrow> bool" where
  "searchString s substr = searchString_from s substr 0"

definition contains :: "string \<Rightarrow> string \<Rightarrow> bool" where
  "contains s substr = (length s \<ge> length substr \<and> searchString s substr)"

fun codes_loop :: "string \<Rightarrow> string list \<Rightarrow> bool" where
  "codes_loop errMsg [] = False"
| "codes_loop errMsg (code # codes) =
     (if contains errMsg code then True else codes_loop errMsg codes)"

definition IsServerError :: "go_error \<Rightarrow> bool" where
  "IsServerError err =
     (case err of
        None \<Rightarrow> False
      | Some errMsg \<Rightarrow> codes_loop errMsg [''429'', ''500'', ''502'', ''503'', ''504''])"

text \<open>
  The specification's wording: a text contains a substring when the substring occurs in
  it as a contiguous block.
\<close>

definition occurs_in :: "string \<Rightarrow> string \<Rightarrow> bool" where
  "occurs_in sub s = (\<exists>xs ys. s = xs @ sub @ ys)"

declare searchString_from.simps [simp del]

section \<open>Key pool (package resilience)\<close>

text \<open>
  The zero value of \<open>time.Time\<close> (1 January of year 1, UTC) in nanoseconds relative to the
  Unix epoch, and the strict comparisons \<open>Time.After\<close> and \<open>Time.Before\<close>.  The cursor
  \<open>current\<close> only ever holds values produced by \<open>% n\<close>, so it is a natural number.
  \<open>Next\<close> reads the clock once; the instant read is the parameter \<open>now\<close>.
\<close>

definition zero_Time :: instant where
  "zero_Time = - 62135596800000000000"

definition After :: "instant \<Rightarrow> instant \<Rightarrow> bool" where
  "After t u = (t > u)"

definition Before :: "instant \<Rightarrow> instant \<Rightarrow> bool" where
  "Before t u = (t < u)"

record keyEntry =
  Key :: string
  Remaining :: int
  ResetAt :: instant
  Exhausted :: bool

record KeyPool =
  keys :: "keyEntry list"
  current :: nat

text \<open>
  The two errors of \<open>Next\<close>.  The second carries the instant that its message prints
  as the earliest reset time.
\<close>

datatype keypool_error = NoKeysConfigured | AllKeysExhausted instant

definition NewKeyPool :: "string list \<Rightarrow> KeyPool" where
  "NewKeyPool ks =
     \<lparr>keys = map (\<lambda>k. \<lparr>Key = k, Remaining = - 1, ResetAt = zero_Time, Exhausted = False\<rparr>) ks,
      current = 0\<rparr>"

text \<open>
  The body of the loop of \<open>Next\<close> up to the test of \<open>Exhausted\<close>: an exhausted entry whose
  reset time lies strictly before \<open>now\<close> is reset.
\<close>

definition reset_if_due :: "instant \<Rightarrow> keyEntry \<Rightarrow> keyEntry" where
  "reset_if_due now entry =
     (if Exhausted entry \<and> After now (ResetAt entry)
      then entry\<lparr>Exhausted := False, Remaining := - 1\<rparr>
      else entry)"

function Next_loop :: "KeyPool \<Rightarrow> instant \<Rightarrow> nat \<Rightarrow> string option \<times> KeyPool" where
  "Next_loop kp now i =
     (let n = length (keys kp) in
      if i < n then
        (let idx = (current kp + i) mod n;
             entry = reset_if_due now (keys kp ! idx);
             kp1 = kp\<lparr>keys := (keys kp)[idx := entry]\<rparr>
         in if \<not> Exhausted entry
            then (Some (Key entry), kp1\<lparr>current := (idx + 1) mod n\<rparr>)
            else Next_loop kp1 now (i + 1))
      else (None, kp))"
  by pat_completeness auto
termination
  by (relation "measure (\<lambda>(kp, now, i). length (keys kp) - i)") auto

fun earliest_loop :: "instant \<Rightarrow> keyEntry list \<Rightarrow> instant" where
  "earliest_loop earliest [] = earliest"
| "earliest_loop earliest (e # es) =
     earliest_loop (if Before (ResetAt e) earliest then ResetAt e else earliest) es"

definition Next :: "KeyPool \<Rightarrow> instant \<Rightarrow> (keypool_error + string) \<times> KeyPool" where
  "Next kp now =
     (if length (keys kp) = 0 then (Inl NoKeysConfigured, kp)
      else
        (case Next_loop kp now 0 of
           (Some k, kp1) \<Rightarrow> (Inr k, kp1)
         | (None, kp1) \<Rightarrow>
             (Inl (AllKeysExhausted (earliest_loop (ResetAt (keys kp1 ! 0)) (drop 1 (keys kp1)))),
              kp1)))"

fun mark_loop :: "keyEntry list \<Rightarrow> string \<Rightarrow> instant \<Rightarrow> keyEntry list" where
  "mark_loop [] key resetAt = []"
| "mark_loop (e # es) key resetAt =
     (if Key e = key
      then e\<lparr>Exhausted := True, ResetAt := resetAt, Remaining := 0\<rparr> # es
      else e # mark_loop es key resetAt)"

definition MarkRateLimited :: "KeyPool \<Rightarrow> string \<Rightarrow> instant \<Rightarrow> KeyPool" where
  "MarkRateLimited kp key resetAt = kp\<lparr>keys := mark_loop (keys kp) key resetAt\<rparr>"

fun update_loop :: "keyEntry list \<Rightarrow> string \<Rightarrow> int \<Rightarrow> instant \<Rightarrow> keyEntry list" where
  "update_loop [] key remaining resetAt = []"
| "update_loop (e # es) key remaining resetAt =
     (if Key e = key
      then (let e1 = e\<lparr>Remaining := remaining, ResetAt := resetAt\<rparr>
            in (if remaining = 0 then e1\<lparr>Exhausted := True\<rparr> else e1)) # es
      else e # update_loop es key remaining resetAt)"

definition UpdateRemaining :: "KeyPool \<Rightarrow> string \<Rightarrow> int \<Rightarrow> instant \<Rightarrow> KeyPool" where
  "UpdateRemaining kp key remaining resetAt =
     kp\<lparr>keys := update_loop (keys kp) key remaining resetAt\<rparr>"

text \<open>
  Sequences of operations on one pool.  All of them run under the pool's mutex, so a
  sequence of calls is a list.
\<close>

datatype keypool_op =
    OpNext instant
  | OpMarkRateLimited string instant
  | OpUpdateRemaining string int instant

fun apply_op :: "KeyPool \<Rightarrow> keypool_op \<Rightarrow> KeyPool" where
  "apply_op kp (OpNext now) = snd (Next kp now)"
| "apply_op kp (OpMarkRateLimited key resetAt) = MarkRateLimited kp key resetAt"
| "apply_op kp (OpUpdateRemaining key remaining resetAt) = UpdateRemaining kp key remaining resetAt"

fun run_ops :: "KeyPool \<Rightarrow> keypool_op list \<Rightarrow> KeyPool" where
  "run_ops kp [] = kp"
| "run_ops kp (op # ops) = run_ops (apply_op kp op) ops"

text \<open>
  The first entry with the given key is the one the update loops act on.  An operation
  records a budget on an exhausted entry when it is an \<open>UpdateRemaining\<close> with a non-zero
  \<open>remaining\<close> whose entry is exhausted in the pool it is applied to.
\<close>

fun find_entry :: "keyEntry list \<Rightarrow> string \<Rightarrow> keyEntry option" where
  "find_entry [] key = None"
| "find_entry (e # es) key = (if Key e = key then Some e else find_entry es key)"

fun budget_on_exhausted :: "KeyPool \<Rightarrow> keypool_op \<Rightarrow> bool" where
  "budget_on_exhausted kp (OpUpdateRemaining key remaining resetAt) =
     (remaining \<noteq> 0 \<and>
      (case find_entry (keys kp) key of None \<Rightarrow> False | Some e \<Rightarrow> Exhausted e))"
| "budget_on_exhausted kp _ = False"

fun never_budget_on_exhausted :: "KeyPool \<Rightarrow> keypool_op list \<Rightarrow> bool" where
  "never_budget_on_exhausted kp [] = True"
| "never_budget_on_exhausted kp (op # ops) =
     (\<not> budget_on_exhausted kp op \<and> never_budget_on_exhausted (apply_op kp op) ops)"

text \<open>The two directions of the entry invariant.\<close>

definition zero_means_exhausted :: "keyEntry \<Rightarrow> bool" where
  "zero_means_exhausted e = (Remaining e = 0 \<longrightarrow> Exhausted e)"

definition exhausted_means_zero :: "keyEntry \<Rightarrow> bool" where
  "exhausted_means_zero e = (Exhausted e \<longrightarrow> Remaining e = 0)"

declare Next_loop.simps [simp del]

text \<open>
  An entry is stuck at an instant when it is exhausted and the instant is not strictly after
  its reset time: \<open>Next\<close> leaves such an entry exhausted and walks on.
\<close>

definition stuck :: "instant \<Rightarrow> keyEntry \<Rightarrow> bool" where
  "stuck now e = (Exhausted e \<and> \<not> After now (ResetAt e))"

section \<open>Circuit breaker (circuitbreaker.go)\<close>

text \<open>
  The counters are Go \<open>int\<close> and \<open>int64\<close> values that only ever grow by one per call;
  they are modelled as unbounded integers, so the model describes runs of fewer than
  \<open>2^63\<close> calls.  The instants read from the clock (\<open>time.Since\<close> in
  \<open>allowRequest\<close>, \<open>time.Now\<close> in \<open>recordFailure\<close>) are parameters.  The wrapped
  thunk acts on a world \<open>'w\<close> that does not contain the breaker, and returns its error.
\<close>

datatype CircuitState = StateClosed | StateOpen | StateHalfOpen

definition ErrCircuitOpen :: string where
  "ErrCircuitOpen = ''circuit breaker is open''"

record CircuitBreaker =
  state :: CircuitState
  failureThreshold :: int
  consecutiveFailures :: int
  cooldown :: duration
  lastFailure :: instant
  totalSuccesses :: int
  totalFailures :: int
  totalRejected :: int

record CircuitBreakerConfig =
  FailureThreshold :: int
  Cooldown :: duration

definition NewCircuitBreaker :: "CircuitBreakerConfig \<Rightarrow> CircuitBreaker" where
  "NewCircuitBreaker cfg =
     (let cfg1 = (if FailureThreshold cfg \<le> 0 then cfg\<lparr>FailureThreshold := 5\<rparr> else cfg);
          cfg2 = (if Cooldown cfg1 \<le> 0 then cfg1\<lparr>Cooldown := 30 * Second\<rparr> else cfg1)
      in \<lparr>state = StateClosed,
          failureThreshold = FailureThreshold cfg2,
          consecutiveFailures = 0,
          cooldown = Cooldown cfg2,
          lastFailure = zero_Time,
          totalSuccesses = 0,
          totalFailures = 0,
          totalRejected = 0\<rparr>)"

definition allowRequest :: "CircuitBreaker \<Rightarrow> instant \<Rightarrow> bool \<times> CircuitBreaker" where
  "allowRequest cb now =
     (case state cb of
        StateClosed \<Rightarrow> (True, cb)
      | StateOpen \<Rightarrow>
          (if time_Since now (lastFailure cb) > cooldown cb
           then (True, cb\<lparr>state := StateHalfOpen\<rparr>)
           else (False, cb))
      | StateHalfOpen \<Rightarrow> (True, cb))"

definition recordFailure :: "CircuitBreaker \<Rightarrow> instant \<Rightarrow> CircuitBreaker" where
  "recordFailure cb now =
     (let cb1 = cb\<lparr>consecutiveFailures := consecutiveFailures cb + 1,
                    totalFailures := totalFailures cb + 1,
                    lastFailure := now\<rparr>
      in if consecutiveFailures cb1 \<ge> failureThreshold cb1
         then cb1\<lparr>state := StateOpen\<rparr>
         else cb1)"

definition recordSuccess :: "CircuitBreaker \<Rightarrow> CircuitBreaker" where
  "recordSuccess cb =
     (let cb1 = cb\<lparr>totalSuccesses := totalSuccesses cb + 1, consecutiveFailures := 0\<rparr>
      in if state cb1 = StateHalfOpen then cb1\<lparr>state := StateClosed\<rparr> else cb1)"

definition Execute ::
  "CircuitBreaker \<Rightarrow> instant \<Rightarrow> ('w \<Rightarrow> go_error \<times> 'w) \<Rightarrow> instant \<Rightarrow> 'w
     \<Rightarrow> go_error \<times> CircuitBreaker \<times> 'w" where
  "Execute cb now fn now' w =
     (case allowRequest cb now of
        (False, cb1) \<Rightarrow> (Some ErrCircuitOpen, cb1\<lparr>totalRejected := totalRejected cb1 + 1\<rparr>, w)
      | (True, cb1) \<Rightarrow>
          (case fn w of
             (Some err, w1) \<Rightarrow> (Some err, recordFailure cb1 now', w1)
           | (None, w1) \<Rightarrow> (None, recordSuccess cb1, w1)))"

definition State :: "CircuitBreaker \<Rightarrow> instant \<Rightarrow> CircuitState" where
  "State cb now =
     (if state cb = StateOpen \<and> time_Since now (lastFailure cb) > cooldown cb
      then StateHalfOpen
      else state cb)"

text \<open>
  \<open>Execute\<close> holds the mutex while it checks admission and again while it records the
  outcome, and releases it while the thunk runs, so calls from several request handlers
  overlap.  The breaker's steps under the mutex are: an admission check at some instant
  (which admits the call or counts a rejection), and the recording of a failure or of a
  success by a call that was admitted.  \<open>inflight\<close> counts the calls admitted and not yet
  recorded; a recording with no call in flight is not a step.
\<close>

datatype cb_event = EvAdmit instant | EvFail instant | EvSucceed

record cb_sys =
  breaker :: CircuitBreaker
  inflight :: nat

fun cb_step :: "cb_sys \<Rightarrow> cb_event \<Rightarrow> cb_sys option" where
  "cb_step s (EvAdmit now) =
     (case allowRequest (breaker s) now of
        (True, cb1) \<Rightarrow> Some \<lparr>breaker = cb1, inflight = inflight s + 1\<rparr>
      | (False, cb1) \<Rightarrow>
          Some \<lparr>breaker = cb1\<lparr>totalRejected := totalRejected cb1 + 1\<rparr>, inflight = inflight s\<rparr>)"
| "cb_step s (EvFail now) =
     (if inflight s = 0 then None
      else Some \<lparr>breaker = recordFailure (breaker s) now, inflight = inflight s - 1\<rparr>)"
| "cb_step s EvSucceed =
     (if inflight s = 0 then None
      else Some \<lparr>breaker = recordSuccess (breaker s), inflight = inflight s - 1\<rparr>)"

fun cb_run :: "cb_sys \<Rightarrow> cb_event list \<Rightarrow> cb_sys option" where
  "cb_run s [] = Some s"
| "cb_run s (ev # evs) = (case cb_step s ev of None \<Rightarrow> None | Some s1 \<Rightarrow> cb_run s1 evs)"

text \<open>A run in which no call is admitted while another is in flight.\<close>

fun is_admit :: "cb_event \<Rightarrow> bool" where
  "is_admit (EvAdmit now) = True"
| "is_admit _ = False"

fun one_at_a_time :: "cb_sys \<Rightarrow> cb_event list \<Rightarrow> bool" where
  "one_at_a_time s [] = True"
| "one_at_a_time s (ev # evs) =
     ((is_admit ev \<longrightarrow> inflight s = 0) \<and>
      (case cb_step s ev of None \<Rightarrow> False | Some s1 \<Rightarrow> one_at_a_time s1 evs))"

definition cb_start :: "CircuitBreakerConfig \<Rightarrow> cb_sys" where
  "cb_start cfg = \<lparr>breaker = NewCircuitBreaker cfg, inflight = 0\<rparr>"

text \<open>
  A run in which no success happens to be recorded while the stored state is
  \<open>StateOpen\<close>, and the property such runs keep: away from \<open>StateClosed\<close> the
  consecutive-failure counter has reached the threshold.
\<close>

fun no_success_while_open :: "cb_sys \<Rightarrow> cb_event list \<Rightarrow> bool" where
  "no_success_while_open s [] = True"
| "no_success_while_open s (ev # evs) =
     ((ev = EvSucceed \<longrightarrow> state (breaker s) \<noteq> StateOpen) \<and>
      (case cb_step s ev of None \<Rightarrow> False | Some s1 \<Rightarrow> no_success_while_open s1 evs))"

definition tripped_inv :: "CircuitBreaker \<Rightarrow> bool" where
  "tripped_inv cb =
     (state cb \<noteq> StateClosed \<longrightarrow> consecutiveFailures cb \<ge> failureThreshold cb)"

text \<open>
  The invariant of runs in which calls do not overlap: away from \<open>StateClosed\<close> the
  consecutive-failure counter has reached the threshold, at most one call is in flight, and
  a call in flight was admitted, so the stored state is not \<open>StateOpen\<close>.
\<close>

definition seq_inv :: "cb_sys \<Rightarrow> bool" where
  "seq_inv s =
     ((state (breaker s) \<noteq> StateClosed
         \<longrightarrow> consecutiveFailures (breaker s) \<ge> failureThreshold (breaker s)) \<and>
      inflight s \<le> 1 \<and>
      (inflight s = 1 \<longrightarrow> state (breaker s) \<noteq> StateOpen))"

section \<open>Retry with backoff (retry.go)\<close>

text \<open>
  \<open>calculateDelay\<close> computes in \<open>float64\<close>; the model computes with exact reals and
  leaves out the rounding of the products.  The draw \<open>rand.Float64()\<close>, a value in
  \<open>[0, 1)\<close>, is the parameter \<open>u\<close>.
\<close>

record RetryConfig =
  MaxRetries :: int
  BaseDelay :: duration
  MaxDelay :: duration

definition DefaultRetryConfig :: RetryConfig where
  "DefaultRetryConfig =
     \<lparr>MaxRetries = 3, BaseDelay = 500 * Millisecond, MaxDelay = 30 * Second\<rparr>"

text \<open>\<open>math.Pow(2, float64(attempt))\<close> for an integer \<open>attempt\<close>.\<close>

definition Pow2 :: "int \<Rightarrow> real" where
  "Pow2 attempt = (if attempt \<ge> 0 then 2 ^ nat attempt else 1 / 2 ^ nat (- attempt))"

text \<open>The conversion \<open>time.Duration(x)\<close> of a float: truncation towards zero.\<close>

definition Duration_of :: "real \<Rightarrow> duration" where
  "Duration_of x = (if x \<ge> 0 then \<lfloor>x\<rfloor> else \<lceil>x\<rceil>)"

definition calculateDelay :: "int \<Rightarrow> duration \<Rightarrow> duration \<Rightarrow> real \<Rightarrow> duration" where
  "calculateDelay attempt baseDelay maxDelay u =
     (let expDelay = real_of_int baseDelay * Pow2 attempt;
          expDelay = (if expDelay > real_of_int maxDelay then real_of_int maxDelay else expDelay);
          jitteredDelay = Duration_of (u * expDelay);
          jitteredDelay = (if jitteredDelay < Millisecond then Millisecond else jitteredDelay)
      in jitteredDelay)"

definition digit :: "nat \<Rightarrow> char" where
  "digit d = ''0123456789'' ! d"

text \<open>The \<open>%d\<close> verb of \<open>fmt\<close>.\<close>

function show_nat :: "nat \<Rightarrow> string" where
  "show_nat n =
     (if n < 10 then [digit n]
      else show_nat (n div 10) @ [digit (n mod 10)])"
  by pat_completeness auto
termination
  by (relation "measure id") auto

definition show_int :: "int \<Rightarrow> string" where
  "show_int i = (if i < 0 then ''-'' @ show_nat (nat (- i)) else show_nat (nat i))"

definition max_retries_exceeded :: "RetryConfig \<Rightarrow> go_error \<Rightarrow> string" where
  "max_retries_exceeded cfg lastErr =
     ''retry: max retries ('' @ show_int (MaxRetries cfg) @ '') exceeded: '' @
     (case lastErr of None \<Rightarrow> ''%!w(<nil>)'' | Some e \<Rightarrow> e)"

text \<open>
  What \<open>Retry\<close> observes of its surroundings, as functions of a world \<open>'w\<close>: the value of
  \<open>ctx.Err()\<close> when \<open>ctx.Done()\<close> is polled (\<open>None\<close> while the context is live), the
  random draw, and the outcome of the \<open>select\<close> between \<open>ctx.Done()\<close> and the timer
  (the context's error if it fires first).  The thunk maps a world to its error and the
  next world.  The result carries the number of times the thunk was invoked.
\<close>

record 'w retry_env =
  ctx_Err :: "'w \<Rightarrow> go_error"
  rand_Float64 :: "'w \<Rightarrow> real \<times> 'w"
  wait :: "duration \<Rightarrow> 'w \<Rightarrow> go_error \<times> 'w"

record 'w retry_result =
  result_err :: go_error
  result_world :: 'w
  invocations :: nat

function Retry_loop ::
  "'w retry_env \<Rightarrow> RetryConfig \<Rightarrow> ('w \<Rightarrow> go_error \<times> 'w) \<Rightarrow> int \<Rightarrow> go_error \<Rightarrow> 'w \<Rightarrow> nat
     \<Rightarrow> 'w retry_result" where
  "Retry_loop env cfg fn attempt lastErr w calls =
     (if attempt \<le> MaxRetries cfg then
        (case ctx_Err env w of
           Some cause \<Rightarrow>
             \<lparr>result_err = Some (''retry: context cancelled: '' @ cause),
              result_world = w, invocations = calls\<rparr>
         | None \<Rightarrow>
             (case fn w of
                (None, w1) \<Rightarrow> \<lparr>result_err = None, result_world = w1, invocations = calls + 1\<rparr>
              | (Some e, w1) \<Rightarrow>
                  if attempt = MaxRetries cfg
                  then \<lparr>result_err = Some (max_retries_exceeded cfg (Some e)),
                        result_world = w1, invocations = calls + 1\<rparr>
                  else if \<not> IsServerError (Some e)
                  then \<lparr>result_err = Some e, result_world = w1, invocations = calls + 1\<rparr>
                  else
                    (case rand_Float64 env w1 of
                       (u, w2) \<Rightarrow>
                         (case wait env (calculateDelay attempt (BaseDelay cfg) (MaxDelay cfg) u) w2 of
                            (Some cause, w3) \<Rightarrow>
                              \<lparr>result_err =
                                 Some (''retry: context cancelled during backoff: '' @ cause),
                               result_world = w3, invocations = calls + 1\<rparr>
                          | (None, w3) \<Rightarrow>
                              Retry_loop env cfg fn (attempt + 1) (Some e) w3 (calls + 1)))))
      else \<lparr>result_err = Some (max_retries_exceeded cfg lastErr),
            result_world = w, invocations = calls\<rparr>)"
  by pat_completeness auto
termination
  by (relation "measure (\<lambda>(env, cfg, fn, attempt, lastErr, w, calls).
        nat (MaxRetries cfg + 1 - attempt))") auto

definition Retry ::
  "'w retry_env \<Rightarrow> RetryConfig \<Rightarrow> ('w \<Rightarrow> go_error \<times> 'w) \<Rightarrow> 'w \<Rightarrow> 'w retry_result" where
  "Retry env cfg fn w = Retry_loop env cfg fn 0 None w 0"

declare Retry_loop.simps [simp del]
declare show_nat.simps [simp del]

section \<open>Semantic cache (package cache)\<close>

text \<open>
  The embedding API, the Qdrant search endpoint and SHA-256 are outside the repository;
  their replies are fields of \<open>cache_services\<close>, as are the faults of the Redis client and
  of the Qdrant upsert request (\<open>None\<close> when the request succeeds).  The Redis server is a
  finite map from keys to a value and an optional expiry instant, and the Qdrant collection
  is the list of its points.  \<open>uuid.New()\<close> is the parameter \<open>uuid\<close> of \<open>Upsert\<close> and
  \<open>Store\<close>.  The JSON encoding of a response is the identity.  Token counts are
  \<open>int32\<close> values.
\<close>

record Response =
  Text :: string
  PromptTokens :: "32 word"
  OutputTokens :: "32 word"

definition zero_Response :: Response where
  "zero_Response = \<lparr>Text = [], PromptTokens = 0, OutputTokens = 0\<rparr>"

type_synonym vector = "real list"

record qdrantPoint =
  point_ID :: string
  point_Vector :: vector
  point_Payload :: "(string \<times> string) list"

record SearchResult =
  ID :: string
  Score :: real
  Found :: bool

record CacheResult =
  Response :: Response
  Hit :: bool

record RedisCache =
  entries :: "string \<rightharpoonup> Response \<times> instant option"
  ttl :: duration

record cache_services =
  Embed :: "string \<Rightarrow> string + vector"
  qdrant_search :: "qdrantPoint list \<Rightarrow> vector \<Rightarrow> real \<Rightarrow> string + (qdrantPoint \<times> real) list"
  sha256_Sum256 :: "string \<Rightarrow> 8 word list"
  redis_fault :: go_error
  upsert_fault :: go_error

record cache_state =
  redis :: RedisCache
  qdrant :: "qdrantPoint list"

text \<open>The \<open>%x\<close> verb of \<open>fmt\<close> on a byte slice: two lower-case hex digits per byte.\<close>

definition hex_digit :: "nat \<Rightarrow> char" where
  "hex_digit d = ''0123456789abcdef'' ! d"

definition hex_byte :: "8 word \<Rightarrow> string" where
  "hex_byte b = [hex_digit (unat b div 16), hex_digit (unat b mod 16)]"

definition cacheKeyFromPrompt :: "cache_services \<Rightarrow> string \<Rightarrow> string" where
  "cacheKeyFromPrompt svc prompt =
     (let hash = sha256_Sum256 svc prompt
      in ''llm_cache:'' @ concat (map hex_byte (take 16 hash)))"

definition redis_Get ::
  "cache_services \<Rightarrow> RedisCache \<Rightarrow> instant \<Rightarrow> string \<Rightarrow> string + Response option" where
  "redis_Get svc r now key =
     (case redis_fault svc of
        Some err \<Rightarrow> Inl (''redis_cache: get: '' @ err)
      | None \<Rightarrow>
          (case entries r key of
             None \<Rightarrow> Inr None
           | Some (resp, None) \<Rightarrow> Inr (Some resp)
           | Some (resp, Some expiry) \<Rightarrow> Inr (if now < expiry then Some resp else None)))"

definition redis_Set ::
  "cache_services \<Rightarrow> RedisCache \<Rightarrow> instant \<Rightarrow> string \<Rightarrow> Response \<Rightarrow> string + RedisCache" where
  "redis_Set svc r now key resp =
     (case redis_fault svc of
        Some err \<Rightarrow> Inl (''redis_cache: set: '' @ err)
      | None \<Rightarrow>
          Inr (r\<lparr>entries :=
                   (entries r)(key \<mapsto> (resp, if ttl r > 0 then Some (now + ttl r) else None))\<rparr>))"

definition Upsert ::
  "cache_services \<Rightarrow> qdrantPoint list \<Rightarrow> string \<Rightarrow> string \<Rightarrow> vector
     \<Rightarrow> string + qdrantPoint list" where
  "Upsert svc points uuid cacheKey vector =
     (case upsert_fault svc of
        Some err \<Rightarrow> Inl (''vector_store: upsert request: '' @ err)
      | None \<Rightarrow>
          Inr (points @ [\<lparr>point_ID = uuid, point_Vector = vector,
                          point_Payload = [(''cache_key'', cacheKey)]\<rparr>]))"

definition Search ::
  "cache_services \<Rightarrow> qdrantPoint list \<Rightarrow> vector \<Rightarrow> real \<Rightarrow> string + SearchResult" where
  "Search svc points vector threshold =
     (case qdrant_search svc points vector threshold of
        Inl err \<Rightarrow> Inl (''vector_store: search request: '' @ err)
      | Inr [] \<Rightarrow> Inr \<lparr>ID = [], Score = 0, Found = False\<rparr>
      | Inr ((top_point, score) # rest) \<Rightarrow>
          Inr \<lparr>ID = point_ID top_point, Score = score, Found = True\<rparr>)"

definition Lookup ::
  "real \<Rightarrow> cache_services \<Rightarrow> instant \<Rightarrow> string \<Rightarrow> cache_state \<Rightarrow> CacheResult" where
  "Lookup threshold svc now prompt st =
     (case Embed svc prompt of
        Inl err \<Rightarrow> \<lparr>Response = zero_Response, Hit = False\<rparr>
      | Inr vector \<Rightarrow>
          (case Search svc (qdrant st) vector threshold of
             Inl err \<Rightarrow> \<lparr>Response = zero_Response, Hit = False\<rparr>
           | Inr result \<Rightarrow>
               if \<not> Found result then \<lparr>Response = zero_Response, Hit = False\<rparr>
               else
                 (let cacheKey = ID result
                  in case redis_Get svc (redis st) now cacheKey of
                       Inl err \<Rightarrow> \<lparr>Response = zero_Response, Hit = False\<rparr>
                     | Inr None \<Rightarrow> \<lparr>Response = zero_Response, Hit = False\<rparr>
                     | Inr (Some resp) \<Rightarrow> \<lparr>Response = resp, Hit = True\<rparr>)))"

definition Store ::
  "cache_services \<Rightarrow> instant \<Rightarrow> string \<Rightarrow> string \<Rightarrow> Response \<Rightarrow> cache_state \<Rightarrow> cache_state" where
  "Store svc now uuid prompt resp st =
     (case Embed svc prompt of
        Inl err \<Rightarrow> st
      | Inr vector \<Rightarrow>
          (let cacheKey = cacheKeyFromPrompt svc prompt
           in case redis_Set svc (redis st) now cacheKey resp of
                Inl err \<Rightarrow> st
              | Inr r1 \<Rightarrow>
                  (case Upsert svc (qdrant st) uuid cacheKey vector of
                     Inl err \<Rightarrow> st\<lparr>redis := r1\<rparr>
                   | Inr points1 \<Rightarrow> st\<lparr>redis := r1, qdrant := points1\<rparr>)))"

text \<open>
  A search endpoint for examples: it answers with the first stored point whose vector
  equals the query, with score 1, when the threshold is at most 1.
\<close>

definition exact_match_search ::
  "qdrantPoint list \<Rightarrow> vector \<Rightarrow> real \<Rightarrow> string + (qdrantPoint \<times> real) list" where
  "exact_match_search points vector threshold =
     Inr (take 1 (map (\<lambda>p. (p, 1))
                     (filter (\<lambda>p. point_Vector p = vector \<and> threshold \<le> 1) points)))"

section \<open>Provider streams (package provider)\<close>

text \<open>
  The goroutine of \<open>InferStream\<close> sends chunks on a channel and closes it; the model is
  the list of chunks sent, in order.  The HTTP body is the list of what the JSON decoder
  (Gemini) or the line scanner (OpenAI) yields before the end of input; \<open>ctx i\<close> is the
  value of \<open>ctx.Err()\<close> at the \<open>i\<close>-th poll of \<open>ctx.Done()\<close>.
\<close>

record StreamChunk =
  chunk_Text :: string
  chunk_Done :: bool
  chunk_PromptTokens :: "32 word"
  chunk_OutputTokens :: "32 word"
  chunk_Err :: go_error

definition zero_StreamChunk :: StreamChunk where
  "zero_StreamChunk =
     \<lparr>chunk_Text = [], chunk_Done = False, chunk_PromptTokens = 0, chunk_OutputTokens = 0,
      chunk_Err = None\<rparr>"

record geminiResponse =
  Candidates :: "string list list"
  PromptTokenCount :: "32 word"
  CandidatesTokenCount :: "32 word"

datatype decode_result = Decoded geminiResponse | DecodeError string

definition gemini_text :: "geminiResponse \<Rightarrow> string" where
  "gemini_text gemResp =
     (if length (Candidates gemResp) > 0 \<and> length (Candidates gemResp ! 0) > 0
      then Candidates gemResp ! 0 ! 0
      else [])"

fun Gemini_stream_loop :: "(nat \<Rightarrow> go_error) \<Rightarrow> nat \<Rightarrow> decode_result list \<Rightarrow> StreamChunk list" where
  "Gemini_stream_loop ctx i [] =
     (case ctx i of
        Some cause \<Rightarrow> [zero_StreamChunk\<lparr>chunk_Err := Some cause\<rparr>]
      | None \<Rightarrow> [zero_StreamChunk\<lparr>chunk_Done := True\<rparr>])"
| "Gemini_stream_loop ctx i (DecodeError err # body) =
     (case ctx i of
        Some cause \<Rightarrow> [zero_StreamChunk\<lparr>chunk_Err := Some cause\<rparr>]
      | None \<Rightarrow>
          [zero_StreamChunk\<lparr>chunk_Err := Some (''gemini: stream decode: '' @ err)\<rparr>,
           zero_StreamChunk\<lparr>chunk_Done := True\<rparr>])"
| "Gemini_stream_loop ctx i (Decoded gemResp # body) =
     (case ctx i of
        Some cause \<Rightarrow> [zero_StreamChunk\<lparr>chunk_Err := Some cause\<rparr>]
      | None \<Rightarrow>
          zero_StreamChunk\<lparr>chunk_Text := gemini_text gemResp,
                            chunk_PromptTokens := PromptTokenCount gemResp,
                            chunk_OutputTokens := CandidatesTokenCount gemResp\<rparr>
          # Gemini_stream_loop ctx (i + 1) body)"

definition Gemini_InferStream :: "(nat \<Rightarrow> go_error) \<Rightarrow> decode_result list \<Rightarrow> StreamChunk list" where
  "Gemini_InferStream ctx body = Gemini_stream_loop ctx 0 body"

record openAIStreamChunk =
  Choices :: "string list"
  Usage :: "(32 word \<times> 32 word) option"

definition HasPrefix :: "string \<Rightarrow> string \<Rightarrow> bool" where
  "HasPrefix s pre = (length s \<ge> length pre \<and> take (length pre) s = pre)"

definition TrimPrefix :: "string \<Rightarrow> string \<Rightarrow> string" where
  "TrimPrefix s pre = (if HasPrefix s pre then drop (length pre) s else s)"

fun OpenAI_stream_loop ::
  "(string \<Rightarrow> string + openAIStreamChunk) \<Rightarrow> (nat \<Rightarrow> go_error) \<Rightarrow> nat \<Rightarrow> 32 word \<Rightarrow> 32 word
     \<Rightarrow> string list \<Rightarrow> go_error \<Rightarrow> StreamChunk list" where
  "OpenAI_stream_loop unmarshal ctx i totalPromptTokens totalOutputTokens [] scanErr =
     (case scanErr of
        None \<Rightarrow> []
      | Some err \<Rightarrow> [zero_StreamChunk\<lparr>chunk_Err := Some (''openai: stream scan: '' @ err)\<rparr>])"
| "OpenAI_stream_loop unmarshal ctx i totalPromptTokens totalOutputTokens (line # lines) scanErr =
     (case ctx i of
        Some cause \<Rightarrow> [zero_StreamChunk\<lparr>chunk_Err := Some cause\<rparr>]
      | None \<Rightarrow>
          if \<not> HasPrefix line ''data: ''
          then OpenAI_stream_loop unmarshal ctx (i + 1) totalPromptTokens totalOutputTokens
                 lines scanErr
          else
            (let data = TrimPrefix line ''data: '' in
             if data = ''[DONE]''
             then [zero_StreamChunk\<lparr>chunk_Done := True,
                                     chunk_PromptTokens := totalPromptTokens,
                                     chunk_OutputTokens := totalOutputTokens\<rparr>]
             else
               (case unmarshal data of
                  Inl err \<Rightarrow>
                    [zero_StreamChunk\<lparr>chunk_Err := Some (''openai: stream decode: '' @ err)\<rparr>]
                | Inr chunk \<Rightarrow>
                    (let totalPromptTokens1 =
                           (case Usage chunk of None \<Rightarrow> totalPromptTokens | Some (p, c) \<Rightarrow> p);
                         totalOutputTokens1 =
                           (case Usage chunk of None \<Rightarrow> totalOutputTokens | Some (p, c) \<Rightarrow> c);
                         text = (if length (Choices chunk) > 0 then Choices chunk ! 0 else [])
                     in (if text \<noteq> [] then [zero_StreamChunk\<lparr>chunk_Text := text\<rparr>] else [])
                        @ OpenAI_stream_loop unmarshal ctx (i + 1) totalPromptTokens1
                            totalOutputTokens1 lines scanErr))))"

definition OpenAI_InferStream ::
  "(string \<Rightarrow> string + openAIStreamChunk) \<Rightarrow> (nat \<Rightarrow> go_error) \<Rightarrow> string list \<Rightarrow> go_error
     \<Rightarrow> StreamChunk list" where
  "OpenAI_InferStream unmarshal ctx lines scanErr =
     OpenAI_stream_loop unmarshal ctx 0 0 0 lines scanErr"

definition terminal :: "StreamChunk \<Rightarrow> bool" where
  "terminal c = (if chunk_Done c then True else (case chunk_Err c of None \<Rightarrow> False | Some e \<Rightarrow> True))"

definition terminal_events :: "StreamChunk list \<Rightarrow> nat" where
  "terminal_events cs = length (filter terminal cs)"

section \<open>Cache metrics (metrics.go, handler.go)\<close>

text \<open>
  The Prometheus counters and the two package-level tallies are \<open>float64\<close> values that
  grow by one; they are modelled as natural numbers.  \<open>Infer_cache_step\<close> and
  \<open>InferStream_cache_step\<close> are the metric updates of the cache step of the two handlers
  when a cache is configured, given whether the lookup hit.
\<close>

record Metrics =
  CacheHitsTotal :: nat
  CacheLookupsTotal :: nat
  CacheHitRatio :: real
  totalHits :: nat
  totalLookups :: nat

definition zero_Metrics :: Metrics where
  "zero_Metrics =
     \<lparr>CacheHitsTotal = 0, CacheLookupsTotal = 0, CacheHitRatio = 0, totalHits = 0,
      totalLookups = 0\<rparr>"

definition RecordCacheLookup :: "bool \<Rightarrow> Metrics \<Rightarrow> Metrics" where
  "RecordCacheLookup hit m =
     (let m1 = m\<lparr>CacheLookupsTotal := CacheLookupsTotal m + 1, totalLookups := totalLookups m + 1\<rparr>;
          m2 = (if hit
                then m1\<lparr>CacheHitsTotal := CacheHitsTotal m1 + 1, totalHits := totalHits m1 + 1\<rparr>
                else m1)
      in if totalLookups m2 > 0
         then m2\<lparr>CacheHitRatio := real (totalHits m2) / real (totalLookups m2)\<rparr>
         else m2)"

datatype rpc = Unary | Streaming

definition Infer_cache_step :: "bool \<Rightarrow> Metrics \<Rightarrow> Metrics" where
  "Infer_cache_step hit m =
     (let m1 = m\<lparr>CacheLookupsTotal := CacheLookupsTotal m + 1\<rparr>
      in if hit then RecordCacheLookup True m1 else RecordCacheLookup False m1)"

definition InferStream_cache_step :: "bool \<Rightarrow> Metrics \<Rightarrow> Metrics" where
  "InferStream_cache_step hit m =
     (let m1 = m\<lparr>CacheLookupsTotal := CacheLookupsTotal m + 1\<rparr>
      in if hit then RecordCacheLookup True m1 else RecordCacheLookup False m1)"

fun handler_cache_step :: "rpc \<times> bool \<Rightarrow> Metrics \<Rightarrow> Metrics" where
  "handler_cache_step (Unary, hit) m = Infer_cache_step hit m"
| "handler_cache_step (Streaming, hit) m = InferStream_cache_step hit m"

fun run_lookups :: "Metrics \<Rightarrow> (rpc \<times> bool) list \<Rightarrow> Metrics" where
  "run_lookups m [] = m"
| "run_lookups m (l # ls) = run_lookups (handler_cache_step l m) ls"

definition hits_in :: "(rpc \<times> bool) list \<Rightarrow> nat" where
  "hits_in ls = length (filter snd ls)"

section \<open>Properties of the error classification\<close>

lemma searchString_from_iff:
  "searchString_from s sub i =
     (\<exists>j\<ge>i. j + length sub \<le> length s \<and> take (length sub) (drop j s) = sub)"
proof (induction s sub i rule: searchString_from.induct)
  case (1 s substr i)
  show ?case
  proof (cases "i + length substr \<le> length s")
    case False
    then show ?thesis by (subst searchString_from.simps) auto
  next
    case inrange: True
    show ?thesis
    proof (cases "take (length substr) (drop i s) = substr")
      case True
      with inrange show ?thesis by (subst searchString_from.simps) auto
    next
      case False
      with inrange have "searchString_from s substr i = searchString_from s substr (i + 1)"
        by (subst searchString_from.simps) simp
      also have "\<dots> = (\<exists>j\<ge>i + 1. j + length substr \<le> length s
                          \<and> take (length substr) (drop j s) = substr)"
        using "1.IH" inrange False by simp
      also have "\<dots> = (\<exists>j\<ge>i. j + length substr \<le> length s
                          \<and> take (length substr) (drop j s) = substr)"
      proof
        assume "\<exists>j\<ge>i + 1. j + length substr \<le> length s
                  \<and> take (length substr) (drop j s) = substr"
        then show "\<exists>j\<ge>i. j + length substr \<le> length s
                  \<and> take (length substr) (drop j s) = substr"
          by (meson add_leD1)
      next
        assume "\<exists>j\<ge>i. j + length substr \<le> length s
                  \<and> take (length substr) (drop j s) = substr"
        then obtain j where j: "j \<ge> i" "j + length substr \<le> length s"
          "take (length substr) (drop j s) = substr" by blast
        with False have "j \<noteq> i" by auto
        with j have "j \<ge> i + 1" by simp
        with j show "\<exists>j\<ge>i + 1. j + length substr \<le> length s
                  \<and> take (length substr) (drop j s) = substr" by blast
      qed
      finally show ?thesis .
    qed
  qed
qed

lemma window_iff_occurs:
  "(\<exists>j. j + length sub \<le> length s \<and> take (length sub) (drop j s) = sub) = occurs_in sub s"
proof
  assume "\<exists>j. j + length sub \<le> length s \<and> take (length sub) (drop j s) = sub"
  then obtain j where j: "j + length sub \<le> length s" "take (length sub) (drop j s) = sub"
    by blast
  have "s = take j s @ drop j s" by simp
  also have "drop j s = take (length sub) (drop j s) @ drop (length sub) (drop j s)"
    by (simp only: append_take_drop_id)
  finally have "s = take j s @ sub @ drop (length sub) (drop j s)"
    using j by simp
  then show "occurs_in sub s" unfolding occurs_in_def by blast
next
  assume "occurs_in sub s"
  then obtain xs ys where s: "s = xs @ sub @ ys" unfolding occurs_in_def by blast
  then have "length xs + length sub \<le> length s \<and> take (length sub) (drop (length xs) s) = sub"
    by simp
  then show "\<exists>j. j + length sub \<le> length s \<and> take (length sub) (drop j s) = sub"
    by blast
qed

lemma contains_iff_occurs: "contains s sub = occurs_in sub s"
proof -
  have "searchString s sub = occurs_in sub s"
    unfolding searchString_def searchString_from_iff
    using window_iff_occurs [of sub s] by simp
  moreover have "occurs_in sub s \<Longrightarrow> length sub \<le> length s"
    unfolding occurs_in_def by auto
  ultimately show ?thesis unfolding contains_def by blast
qed

text \<open>
  Claim C8.  \<open>IsServerError\<close> returns false for the nil error, and for a non-nil error it
  returns true exactly when the error's text contains one of the substrings
  429, 500, 502, 503, 504.
\<close>

theorem IsServerError_iff_status_substring:
  "IsServerError None = False \<and>
   IsServerError (Some errMsg) =
     (occurs_in ''429'' errMsg \<or> occurs_in ''500'' errMsg \<or> occurs_in ''502'' errMsg
      \<or> occurs_in ''503'' errMsg \<or> occurs_in ''504'' errMsg)"
  by (simp add: IsServerError_def contains_iff_occurs)

section \<open>Properties of the key pool\<close>

lemma reset_if_due_stuck: "Exhausted (reset_if_due now e) = stuck now e"
  by (auto simp add: reset_if_due_def stuck_def)

lemma reset_if_due_id: "stuck now e \<Longrightarrow> reset_if_due now e = e"
  by (simp add: reset_if_due_def stuck_def)

lemma Key_reset_if_due: "Key (reset_if_due now e) = Key e"
  by (simp add: reset_if_due_def)

lemma Next_loop_unfold:
  "Next_loop kp now i =
     (if i < length (keys kp) then
        (if stuck now (keys kp ! ((current kp + i) mod length (keys kp)))
         then Next_loop kp now (i + 1)
         else (Some (Key (keys kp ! ((current kp + i) mod length (keys kp)))),
               \<lparr>keys = (keys kp)[(current kp + i) mod length (keys kp) :=
                          reset_if_due now (keys kp ! ((current kp + i) mod length (keys kp)))],
                current = ((current kp + i) mod length (keys kp) + 1) mod length (keys kp)\<rparr>))
      else (None, kp))"
  by (subst Next_loop.simps)
     (simp add: Let_def reset_if_due_stuck reset_if_due_id Key_reset_if_due)

lemma Next_loop_None:
  "Next_loop kp now i = (None, kp') \<Longrightarrow>
     kp' = kp \<and>
     (\<forall>j. i \<le> j \<and> j < length (keys kp)
          \<longrightarrow> stuck now (keys kp ! ((current kp + j) mod length (keys kp))))"
proof (induction "length (keys kp) - i" arbitrary: i)
  case 0
  then have "\<not> i < length (keys kp)" by simp
  with "0.prems" show ?case by (subst (asm) Next_loop_unfold) auto
next
  case (Suc d)
  then have lt: "i < length (keys kp)" by simp
  show ?case
  proof (cases "stuck now (keys kp ! ((current kp + i) mod length (keys kp)))")
    case False
    with lt Suc.prems show ?thesis by (subst (asm) Next_loop_unfold) simp
  next
    case True
    with lt Suc.prems have "Next_loop kp now (i + 1) = (None, kp')"
      by (subst (asm) Next_loop_unfold) simp
    moreover have "d = length (keys kp) - (i + 1)" using Suc.hyps(2) by simp
    ultimately have IH: "kp' = kp \<and>
        (\<forall>j. i + 1 \<le> j \<and> j < length (keys kp)
           \<longrightarrow> stuck now (keys kp ! ((current kp + j) mod length (keys kp))))"
      using Suc.hyps(1) by blast
    have "stuck now (keys kp ! ((current kp + j) mod length (keys kp)))"
      if "i \<le> j" "j < length (keys kp)" for j
    proof (cases "j = i")
      case True
      with \<open>stuck now (keys kp ! ((current kp + i) mod length (keys kp)))\<close> show ?thesis by simp
    next
      case False
      with that have "i + 1 \<le> j" by simp
      with IH that show ?thesis by blast
    qed
    with IH show ?thesis by blast
  qed
qed

lemma Next_loop_Some:
  "Next_loop kp now i = (Some k, kp') \<Longrightarrow>
     (\<exists>m. i \<le> m \<and> m < length (keys kp) \<and>
          (\<forall>j. i \<le> j \<and> j < m
               \<longrightarrow> stuck now (keys kp ! ((current kp + j) mod length (keys kp)))) \<and>
          \<not> stuck now (keys kp ! ((current kp + m) mod length (keys kp))) \<and>
          k = Key (keys kp ! ((current kp + m) mod length (keys kp))) \<and>
          kp' = \<lparr>keys = (keys kp)[(current kp + m) mod length (keys kp) :=
                         reset_if_due now (keys kp ! ((current kp + m) mod length (keys kp)))],
                 current = ((current kp + m) mod length (keys kp) + 1)
                             mod length (keys kp)\<rparr>)"
proof (induction "length (keys kp) - i" arbitrary: i)
  case 0
  then have "\<not> i < length (keys kp)" by simp
  with "0.prems" show ?case by (subst (asm) Next_loop_unfold) auto
next
  case (Suc d)
  then have lt: "i < length (keys kp)" by simp
  show ?case
  proof (cases "stuck now (keys kp ! ((current kp + i) mod length (keys kp)))")
    case False
    with lt Suc.prems have
      "k = Key (keys kp ! ((current kp + i) mod length (keys kp)))"
      "kp' = \<lparr>keys = (keys kp)[(current kp + i) mod length (keys kp) :=
                         reset_if_due now (keys kp ! ((current kp + i) mod length (keys kp)))],
                 current = ((current kp + i) mod length (keys kp) + 1)
                             mod length (keys kp)\<rparr>"
      by (subst (asm) Next_loop_unfold, simp)+
    with lt False show ?thesis by (intro exI [of _ i]) auto
  next
    case True
    with lt Suc.prems have "Next_loop kp now (i + 1) = (Some k, kp')"
      by (subst (asm) Next_loop_unfold) simp
    moreover have "d = length (keys kp) - (i + 1)" using Suc.hyps(2) by simp
    ultimately obtain m where m: "i + 1 \<le> m" "m < length (keys kp)"
      "\<forall>j. i + 1 \<le> j \<and> j < m
           \<longrightarrow> stuck now (keys kp ! ((current kp + j) mod length (keys kp)))"
      "\<not> stuck now (keys kp ! ((current kp + m) mod length (keys kp)))"
      "k = Key (keys kp ! ((current kp + m) mod length (keys kp)))"
      "kp' = \<lparr>keys = (keys kp)[(current kp + m) mod length (keys kp) :=
                         reset_if_due now (keys kp ! ((current kp + m) mod length (keys kp)))],
                 current = ((current kp + m) mod length (keys kp) + 1)
                             mod length (keys kp)\<rparr>"
      using Suc.hyps(1) [of "i + 1"] by blast
    have "stuck now (keys kp ! ((current kp + j) mod length (keys kp)))"
      if "i \<le> j" "j < m" for j
    proof (cases "j = i")
      case True
      with \<open>stuck now (keys kp ! ((current kp + i) mod length (keys kp)))\<close> show ?thesis by simp
    next
      case False
      with that have "i + 1 \<le> j" by simp
      with m(3) that show ?thesis by blast
    qed
    with m show ?thesis by (intro exI [of _ m]) simp
  qed
qed

lemma offsets_cover:
  assumes "idx < (n::nat)"
  shows "\<exists>j<n. (c + j) mod n = idx"
proof -
  let ?j = "(idx + (n - c mod n)) mod n"
  have n: "0 < n" using assms by simp
  then have cm: "c mod n < n" by simp
  have "(c + ?j) mod n = (c mod n + (idx + (n - c mod n))) mod n"
    by (simp add: mod_add_eq mod_add_left_eq mod_add_right_eq)
  also have "c mod n + (idx + (n - c mod n)) = idx + n" using cm by simp
  also have "(idx + n) mod n = idx" using assms by simp
  finally have "(c + ?j) mod n = idx" .
  moreover have "?j < n" using n by simp
  ultimately show ?thesis by blast
qed

lemma earliest_loop_fold:
  "earliest_loop a es = fold min (map ResetAt es) a"
proof (induction es arbitrary: a)
  case Nil
  show ?case by simp
next
  case (Cons e es)
  have "(if Before (ResetAt e) a then ResetAt e else a) = min (ResetAt e) a"
    by (auto simp: Before_def min_def)
  with Cons.IH show ?case by simp
qed

lemma earliest_keys_Min:
  "ks \<noteq> [] \<Longrightarrow> earliest_loop (ResetAt (ks ! 0)) (drop 1 ks) = Min (ResetAt ` set ks)"
proof (cases ks)
  case Nil
  assume "ks \<noteq> []"
  with Nil show ?thesis by simp
next
  case (Cons e es)
  have "Min (ResetAt ` set ks) = Min (set (map ResetAt (e # es)))"
    using Cons by simp
  also have "\<dots> = Min (set (ResetAt e # map ResetAt es))" by simp
  also have "\<dots> = fold min (map ResetAt es) (ResetAt e)"
    by (rule Min.set_eq_fold)
  finally show ?thesis using Cons by (simp add: earliest_loop_fold)
qed

lemma Next_cases:
  assumes "keys kp \<noteq> []"
  shows "(\<exists>m<length (keys kp).
            (\<forall>j<m. stuck now (keys kp ! ((current kp + j) mod length (keys kp)))) \<and>
            \<not> stuck now (keys kp ! ((current kp + m) mod length (keys kp))) \<and>
            Next kp now =
              (Inr (Key (keys kp ! ((current kp + m) mod length (keys kp)))),
               \<lparr>keys = (keys kp)[(current kp + m) mod length (keys kp) :=
                           reset_if_due now (keys kp ! ((current kp + m) mod length (keys kp)))],
                 current = ((current kp + m) mod length (keys kp) + 1) mod length (keys kp)\<rparr>))
         \<or> ((\<forall>e\<in>set (keys kp). stuck now e) \<and>
            Next kp now = (Inl (AllKeysExhausted (Min (ResetAt ` set (keys kp)))), kp))"
proof -
  obtain r kp' where loop: "Next_loop kp now 0 = (r, kp')" by (cases "Next_loop kp now 0")
  have n: "length (keys kp) \<noteq> 0" using assms by simp
  show ?thesis
  proof (cases r)
    case None
    with loop have same: "kp' = kp"
      and all: "\<forall>j. 0 \<le> j \<and> j < length (keys kp)
                  \<longrightarrow> stuck now (keys kp ! ((current kp + j) mod length (keys kp)))"
      using Next_loop_None [of kp now 0 kp'] by simp_all
    have "stuck now e" if "e \<in> set (keys kp)" for e
    proof -
      from that obtain idx where idx: "idx < length (keys kp)" "keys kp ! idx = e"
        by (auto simp: in_set_conv_nth)
      from offsets_cover [OF idx(1), of "current kp"] obtain j
        where "j < length (keys kp)" "(current kp + j) mod length (keys kp) = idx" by blast
      with all idx show ?thesis by auto
    qed
    moreover have "Next kp now = (Inl (AllKeysExhausted (Min (ResetAt ` set (keys kp)))), kp)"
      using n loop None same earliest_keys_Min [OF assms] by (simp add: Next_def)
    ultimately show ?thesis by blast
  next
    case (Some k)
    with loop obtain m where m: "m < length (keys kp)"
      "\<forall>j. 0 \<le> j \<and> j < m
           \<longrightarrow> stuck now (keys kp ! ((current kp + j) mod length (keys kp)))"
      "\<not> stuck now (keys kp ! ((current kp + m) mod length (keys kp)))"
      "k = Key (keys kp ! ((current kp + m) mod length (keys kp)))"
      "kp' = \<lparr>keys = (keys kp)[(current kp + m) mod length (keys kp) :=
                         reset_if_due now (keys kp ! ((current kp + m) mod length (keys kp)))],
                 current = ((current kp + m) mod length (keys kp) + 1)
                             mod length (keys kp)\<rparr>"
      using Next_loop_Some [of kp now 0 k kp'] by blast
    have "Next kp now = (Inr k, kp')" using n loop Some by (simp add: Next_def)
    with m show ?thesis by (intro disjI1 exI [of _ m]) simp
  qed
qed

text \<open>
  Claim C5, with the reset condition the code has.  For a pool with at least one entry,
  \<open>Next\<close> walks the entries from the cursor.  Either it selects the first offset \<open>m\<close>
  whose entry is not stuck (every entry walked before it is exhausted with \<open>now\<close> not
  strictly after its reset time): it returns that entry's key, clears the entry's
  exhaustion if \<open>now\<close> is strictly after its reset time, leaves every other entry as it
  was, and sets the cursor one position past the selected slot, modulo the pool size.  Or
  every entry is stuck: it returns the all-keys-exhausted error carrying the least reset
  time of the pool and leaves the pool unchanged.
\<close>

theorem Next_round_robin:
  assumes "keys kp \<noteq> []"
  shows "case Next kp now of
           (Inr k, kp') \<Rightarrow>
             (\<exists>m<length (keys kp).
                (\<forall>j<m. stuck now (keys kp ! ((current kp + j) mod length (keys kp)))) \<and>
                \<not> stuck now (keys kp ! ((current kp + m) mod length (keys kp))) \<and>
                k = Key (keys kp ! ((current kp + m) mod length (keys kp))) \<and>
                keys kp' = (keys kp)[(current kp + m) mod length (keys kp) :=
                              reset_if_due now
                                (keys kp ! ((current kp + m) mod length (keys kp)))] \<and>
                \<not> Exhausted (keys kp' ! ((current kp + m) mod length (keys kp))) \<and>
                current kp' = ((current kp + m) mod length (keys kp) + 1) mod length (keys kp))
         | (Inl err, kp') \<Rightarrow>
             (\<forall>e\<in>set (keys kp). stuck now e) \<and>
             err = AllKeysExhausted (Min (ResetAt ` set (keys kp))) \<and>
             kp' = kp"
proof -
  have n: "0 < length (keys kp)" using assms by simp
  from Next_cases [OF assms, of now] show ?thesis
  proof
    assume "\<exists>m<length (keys kp).
            (\<forall>j<m. stuck now (keys kp ! ((current kp + j) mod length (keys kp)))) \<and>
            \<not> stuck now (keys kp ! ((current kp + m) mod length (keys kp))) \<and>
            Next kp now =
              (Inr (Key (keys kp ! ((current kp + m) mod length (keys kp)))),
               \<lparr>keys = (keys kp)[(current kp + m) mod length (keys kp) :=
                           reset_if_due now (keys kp ! ((current kp + m) mod length (keys kp)))],
                 current = ((current kp + m) mod length (keys kp) + 1) mod length (keys kp)\<rparr>)"
    then obtain m where m: "m < length (keys kp)"
      "\<forall>j<m. stuck now (keys kp ! ((current kp + j) mod length (keys kp)))"
      "\<not> stuck now (keys kp ! ((current kp + m) mod length (keys kp)))"
      "Next kp now =
              (Inr (Key (keys kp ! ((current kp + m) mod length (keys kp)))),
               \<lparr>keys = (keys kp)[(current kp + m) mod length (keys kp) :=
                           reset_if_due now (keys kp ! ((current kp + m) mod length (keys kp)))],
                 current = ((current kp + m) mod length (keys kp) + 1) mod length (keys kp)\<rparr>)"
      by blast
    have "(current kp + m) mod length (keys kp) < length (keys kp)" using n by simp
    with m(3) have "\<not> Exhausted (((keys kp)[(current kp + m) mod length (keys kp) :=
                           reset_if_due now (keys kp ! ((current kp + m) mod length (keys kp)))])
                       ! ((current kp + m) mod length (keys kp)))"
      by (simp add: reset_if_due_stuck)
    with m show ?thesis by (simp only: m(4) prod.case sum.case) (intro exI [of _ m], simp)
  next
    assume "(\<forall>e\<in>set (keys kp). stuck now e) \<and>
            Next kp now = (Inl (AllKeysExhausted (Min (ResetAt ` set (keys kp)))), kp)"
    then show ?thesis by simp
  qed
qed

text \<open>A two-key pool whose first key is rate limited until 100, asked at instant 50.\<close>

theorem Next_round_robin_witness:
  "keys \<lparr>keys = [\<lparr>Key = ''k1'', Remaining = 0, ResetAt = 100, Exhausted = True\<rparr>,
                  \<lparr>Key = ''k2'', Remaining = - 1, ResetAt = 0, Exhausted = False\<rparr>],
         current = 0\<rparr> \<noteq> [] \<and>
   Next \<lparr>keys = [\<lparr>Key = ''k1'', Remaining = 0, ResetAt = 100, Exhausted = True\<rparr>,
                  \<lparr>Key = ''k2'', Remaining = - 1, ResetAt = 0, Exhausted = False\<rparr>],
         current = 0\<rparr> 50 =
     (Inr ''k2'',
      \<lparr>keys = [\<lparr>Key = ''k1'', Remaining = 0, ResetAt = 100, Exhausted = True\<rparr>,
                \<lparr>Key = ''k2'', Remaining = - 1, ResetAt = 0, Exhausted = False\<rparr>],
       current = 0\<rparr>)"
  using Next_round_robin
    [of "\<lparr>keys = [\<lparr>Key = ''k1'', Remaining = 0, ResetAt = 100, Exhausted = True\<rparr>,
                  \<lparr>Key = ''k2'', Remaining = - 1, ResetAt = 0, Exhausted = False\<rparr>],
         current = 0\<rparr>" 50]
  by (simp add: Next_def Next_loop.simps reset_if_due_def After_def)

text \<open>
  At the instant equal to the reset time the entry's reset time has been reached, yet
  \<open>Next\<close> leaves it exhausted and reports that all keys are exhausted.
\<close>

theorem Next_boundary_counterexample:
  "ResetAt \<lparr>Key = ''k1'', Remaining = 0, ResetAt = 100, Exhausted = True\<rparr> \<le> 100 \<and>
   Next \<lparr>keys = [\<lparr>Key = ''k1'', Remaining = 0, ResetAt = 100, Exhausted = True\<rparr>],
         current = 0\<rparr> 100 =
     (Inl (AllKeysExhausted 100),
      \<lparr>keys = [\<lparr>Key = ''k1'', Remaining = 0, ResetAt = 100, Exhausted = True\<rparr>],
       current = 0\<rparr>)"
  by (simp add: Next_def Next_loop.simps reset_if_due_def After_def Before_def)

lemma Next_keys_preserve:
  assumes all: "\<forall>e\<in>set (keys kp). P e"
    and reset: "\<And>e. P e \<Longrightarrow> P (reset_if_due now e)"
  shows "\<forall>e\<in>set (keys (snd (Next kp now))). P e"
proof (cases "keys kp = []")
  case True
  then show ?thesis by (simp add: Next_def)
next
  case False
  from Next_cases [OF False, of now] show ?thesis
  proof
    assume "\<exists>m<length (keys kp).
            (\<forall>j<m. stuck now (keys kp ! ((current kp + j) mod length (keys kp)))) \<and>
            \<not> stuck now (keys kp ! ((current kp + m) mod length (keys kp))) \<and>
            Next kp now =
              (Inr (Key (keys kp ! ((current kp + m) mod length (keys kp)))),
               \<lparr>keys = (keys kp)[(current kp + m) mod length (keys kp) :=
                           reset_if_due now (keys kp ! ((current kp + m) mod length (keys kp)))],
                 current = ((current kp + m) mod length (keys kp) + 1) mod length (keys kp)\<rparr>)"
    then obtain m where
      nx: "keys (snd (Next kp now)) =
             (keys kp)[(current kp + m) mod length (keys kp) :=
                reset_if_due now (keys kp ! ((current kp + m) mod length (keys kp)))]"
      by auto
    have "(current kp + m) mod length (keys kp) < length (keys kp)" using False by simp
    then have "P (reset_if_due now (keys kp ! ((current kp + m) mod length (keys kp))))"
      using all reset by simp
    moreover have "set (keys (snd (Next kp now)))
        \<subseteq> insert (reset_if_due now (keys kp ! ((current kp + m) mod length (keys kp))))
                 (set (keys kp))"
      unfolding nx by (rule set_update_subset_insert)
    ultimately show ?thesis using all by auto
  next
    assume "(\<forall>e\<in>set (keys kp). stuck now e) \<and>
            Next kp now = (Inl (AllKeysExhausted (Min (ResetAt ` set (keys kp)))), kp)"
    with all show ?thesis by simp
  qed
qed

lemma mark_loop_preserve:
  assumes "\<forall>e\<in>set es. P e"
    and "\<And>e. P (e\<lparr>Exhausted := True, ResetAt := resetAt, Remaining := 0\<rparr>)"
  shows "\<forall>e\<in>set (mark_loop es key resetAt). P e"
  using assms by (induction es) auto

lemma update_loop_zero_means_exhausted:
  "\<forall>e\<in>set es. zero_means_exhausted e \<Longrightarrow>
   \<forall>e\<in>set (update_loop es key remaining resetAt). zero_means_exhausted e"
  by (induction es) (auto simp: zero_means_exhausted_def Let_def)

lemma update_loop_exhausted_means_zero:
  "\<forall>e\<in>set es. exhausted_means_zero e \<Longrightarrow>
   \<not> (remaining \<noteq> 0 \<and> (case find_entry es key of None \<Rightarrow> False | Some e \<Rightarrow> Exhausted e)) \<Longrightarrow>
   \<forall>e\<in>set (update_loop es key remaining resetAt). exhausted_means_zero e"
  by (induction es) (auto simp: exhausted_means_zero_def Let_def)

lemma apply_op_zero_means_exhausted:
  assumes "\<forall>e\<in>set (keys kp). zero_means_exhausted e"
  shows "\<forall>e\<in>set (keys (apply_op kp op)). zero_means_exhausted e"
proof (cases op)
  case (OpNext now)
  have "\<And>e. zero_means_exhausted e \<Longrightarrow> zero_means_exhausted (reset_if_due now e)"
    by (simp add: zero_means_exhausted_def reset_if_due_def)
  with assms show ?thesis unfolding OpNext apply_op.simps by (rule Next_keys_preserve)
next
  case (OpMarkRateLimited key resetAt)
  have "\<forall>e\<in>set (mark_loop (keys kp) key resetAt). zero_means_exhausted e"
    using assms by (rule mark_loop_preserve) (simp add: zero_means_exhausted_def)
  then show ?thesis by (simp add: OpMarkRateLimited MarkRateLimited_def)
next
  case (OpUpdateRemaining key remaining resetAt)
  with assms show ?thesis
    by (simp add: UpdateRemaining_def update_loop_zero_means_exhausted)
qed

lemma apply_op_exhausted_means_zero:
  assumes "\<forall>e\<in>set (keys kp). exhausted_means_zero e"
    and "\<not> budget_on_exhausted kp op"
  shows "\<forall>e\<in>set (keys (apply_op kp op)). exhausted_means_zero e"
proof (cases op)
  case (OpNext now)
  have "\<And>e. exhausted_means_zero e \<Longrightarrow> exhausted_means_zero (reset_if_due now e)"
    by (simp add: exhausted_means_zero_def reset_if_due_def)
  with assms(1) show ?thesis unfolding OpNext apply_op.simps by (rule Next_keys_preserve)
next
  case (OpMarkRateLimited key resetAt)
  have "\<forall>e\<in>set (mark_loop (keys kp) key resetAt). exhausted_means_zero e"
    using assms(1) by (rule mark_loop_preserve) (simp add: exhausted_means_zero_def)
  then show ?thesis by (simp add: OpMarkRateLimited MarkRateLimited_def)
next
  case (OpUpdateRemaining key remaining resetAt)
  with assms show ?thesis
    by (simp add: UpdateRemaining_def update_loop_exhausted_means_zero)
qed

lemma run_ops_zero_means_exhausted:
  "\<forall>e\<in>set (keys kp). zero_means_exhausted e \<Longrightarrow>
   \<forall>e\<in>set (keys (run_ops kp ops)). zero_means_exhausted e"
proof (induction ops arbitrary: kp)
  case Nil
  then show ?case by simp
next
  case (Cons op ops)
  from Cons.prems have "\<forall>e\<in>set (keys (apply_op kp op)). zero_means_exhausted e"
    by (rule apply_op_zero_means_exhausted)
  then show ?case using Cons.IH by simp
qed

lemma run_ops_exhausted_means_zero:
  "\<forall>e\<in>set (keys kp). exhausted_means_zero e \<Longrightarrow> never_budget_on_exhausted kp ops \<Longrightarrow>
   \<forall>e\<in>set (keys (run_ops kp ops)). exhausted_means_zero e"
proof (induction ops arbitrary: kp)
  case Nil
  then show ?case by simp
next
  case (Cons op ops)
  from Cons.prems have "\<forall>e\<in>set (keys (apply_op kp op)). exhausted_means_zero e"
    by (intro apply_op_exhausted_means_zero) simp_all
  moreover from Cons.prems have "never_budget_on_exhausted (apply_op kp op) ops" by simp
  ultimately show ?case using Cons.IH by simp
qed

lemma NewKeyPool_invariants:
  "\<forall>e\<in>set (keys (NewKeyPool ks)). zero_means_exhausted e \<and> exhausted_means_zero e"
  by (auto simp: NewKeyPool_def zero_means_exhausted_def exhausted_means_zero_def)

text \<open>
  Claim C3, as the code has it.  After every sequence of \<open>Next\<close>,
  \<open>MarkRateLimited\<close> and \<open>UpdateRemaining\<close> on a pool made by \<open>NewKeyPool\<close>, every
  entry with \<open>Remaining = 0\<close> is exhausted.  Every exhausted entry has
  \<open>Remaining = 0\<close> provided no \<open>UpdateRemaining\<close> of the sequence records a non-zero
  budget for a key whose entry is exhausted at that moment.
\<close>

theorem keypool_entry_invariants:
  "(\<forall>e\<in>set (keys (run_ops (NewKeyPool ks) ops)). zero_means_exhausted e) \<and>
   (never_budget_on_exhausted (NewKeyPool ks) ops \<longrightarrow>
      (\<forall>e\<in>set (keys (run_ops (NewKeyPool ks) ops)). exhausted_means_zero e))"
  using run_ops_zero_means_exhausted [of "NewKeyPool ks" ops]
    run_ops_exhausted_means_zero [of "NewKeyPool ks" ops]
    NewKeyPool_invariants [of ks]
  by blast

text \<open>A run of five operations on a two-key pool that meets the proviso.\<close>

theorem keypool_entry_invariants_witness:
  "never_budget_on_exhausted (NewKeyPool [''k1'', ''k2''])
     [OpUpdateRemaining ''k1'' 7 300, OpMarkRateLimited ''k1'' 100, OpNext 50,
      OpUpdateRemaining ''k2'' 0 80, OpNext 101] \<and>
   list_all zero_means_exhausted
     (keys (run_ops (NewKeyPool [''k1'', ''k2''])
        [OpUpdateRemaining ''k1'' 7 300, OpMarkRateLimited ''k1'' 100, OpNext 50,
         OpUpdateRemaining ''k2'' 0 80, OpNext 101])) \<and>
   list_all exhausted_means_zero
     (keys (run_ops (NewKeyPool [''k1'', ''k2''])
        [OpUpdateRemaining ''k1'' 7 300, OpMarkRateLimited ''k1'' 100, OpNext 50,
         OpUpdateRemaining ''k2'' 0 80, OpNext 101]))"
proof -
  have h: "never_budget_on_exhausted (NewKeyPool [''k1'', ''k2''])
     [OpUpdateRemaining ''k1'' 7 300, OpMarkRateLimited ''k1'' 100, OpNext 50,
      OpUpdateRemaining ''k2'' 0 80, OpNext 101]"
    by (simp add: NewKeyPool_def UpdateRemaining_def MarkRateLimited_def Next_def
        Next_loop.simps reset_if_due_def After_def Let_def zero_Time_def)
  with keypool_entry_invariants [of "[''k1'', ''k2'']"
     "[OpUpdateRemaining ''k1'' 7 300, OpMarkRateLimited ''k1'' 100, OpNext 50,
       OpUpdateRemaining ''k2'' 0 80, OpNext 101]"]
  show ?thesis unfolding list_all_iff by blast
qed

text \<open>
  Recording a budget of 5 for a key that was marked rate limited leaves its entry
  exhausted with \<open>Remaining = 5\<close>.
\<close>

theorem keypool_update_counterexample:
  "run_ops (NewKeyPool [''k1''])
     [OpMarkRateLimited ''k1'' 100, OpUpdateRemaining ''k1'' 5 200] =
     \<lparr>keys = [\<lparr>Key = ''k1'', Remaining = 5, ResetAt = 200, Exhausted = True\<rparr>], current = 0\<rparr> \<and>
   \<not> exhausted_means_zero \<lparr>Key = ''k1'', Remaining = 5, ResetAt = 200, Exhausted = True\<rparr>"
  by (simp add: NewKeyPool_def UpdateRemaining_def MarkRateLimited_def exhausted_means_zero_def
      Let_def)

section \<open>Properties of the circuit breaker\<close>

text \<open>
  Claim C4.  When the stored state is \<open>StateOpen\<close> and the cooldown has not elapsed since
  the last failure, \<open>Execute\<close> returns \<open>ErrCircuitOpen\<close>, adds one to the rejection
  counter and leaves the world untouched, whatever the thunk is: the thunk is not invoked.
  When the cooldown has elapsed, admission stores \<open>StateHalfOpen\<close> and the thunk is
  invoked once, its outcome recorded on the half-open breaker.
\<close>

theorem Execute_when_open:
  "(state cb = StateOpen \<and> \<not> time_Since now (lastFailure cb) > cooldown cb \<longrightarrow>
      Execute cb now fn now' w =
        (Some ErrCircuitOpen, cb\<lparr>totalRejected := totalRejected cb + 1\<rparr>, w)) \<and>
   (state cb = StateOpen \<and> time_Since now (lastFailure cb) > cooldown cb \<longrightarrow>
      allowRequest cb now = (True, cb\<lparr>state := StateHalfOpen\<rparr>) \<and>
      Execute cb now fn now' w =
        (case fn w of
           (Some err, w1) \<Rightarrow> (Some err, recordFailure (cb\<lparr>state := StateHalfOpen\<rparr>) now', w1)
         | (None, w1) \<Rightarrow> (None, recordSuccess (cb\<lparr>state := StateHalfOpen\<rparr>), w1)))"
  by (simp add: Execute_def allowRequest_def)

text \<open>
  An open breaker with a 30 s cooldown, called 1000 ns and 40 s after its last failure
  with a thunk that counts its invocations.
\<close>

theorem Execute_when_open_witness:
  "(state \<lparr>state = StateOpen, failureThreshold = 5, consecutiveFailures = 5,
           cooldown = 30000000000, lastFailure = 1000, totalSuccesses = 0,
           totalFailures = 5, totalRejected = 0\<rparr> = StateOpen \<and>
    \<not> time_Since 2000 1000 > 30000000000 \<and>
    Execute \<lparr>state = StateOpen, failureThreshold = 5, consecutiveFailures = 5,
             cooldown = 30000000000, lastFailure = 1000, totalSuccesses = 0,
             totalFailures = 5, totalRejected = 0\<rparr> 2000 (\<lambda>n. (None, Suc n)) 3000 (0::nat) =
      (Some ErrCircuitOpen,
       \<lparr>state = StateOpen, failureThreshold = 5, consecutiveFailures = 5,
        cooldown = 30000000000, lastFailure = 1000, totalSuccesses = 0,
        totalFailures = 5, totalRejected = 1\<rparr>, 0)) \<and>
   (time_Since 40000000000 1000 > 30000000000 \<and>
    Execute \<lparr>state = StateOpen, failureThreshold = 5, consecutiveFailures = 5,
             cooldown = 30000000000, lastFailure = 1000, totalSuccesses = 0,
             totalFailures = 5, totalRejected = 0\<rparr> 40000000000 (\<lambda>n. (None, Suc n))
             40000000500 (0::nat) =
      (None,
       \<lparr>state = StateClosed, failureThreshold = 5, consecutiveFailures = 0,
        cooldown = 30000000000, lastFailure = 1000, totalSuccesses = 1,
        totalFailures = 5, totalRejected = 0\<rparr>, 1))"
  using Execute_when_open
    [of "\<lparr>state = StateOpen, failureThreshold = 5, consecutiveFailures = 5,
          cooldown = 30000000000, lastFailure = 1000, totalSuccesses = 0,
          totalFailures = 5, totalRejected = 0\<rparr>" 2000 "\<lambda>n. (None, Suc n)" 3000 "0::nat"]
    Execute_when_open
    [of "\<lparr>state = StateOpen, failureThreshold = 5, consecutiveFailures = 5,
          cooldown = 30000000000, lastFailure = 1000, totalSuccesses = 0,
          totalFailures = 5, totalRejected = 0\<rparr>" 40000000000 "\<lambda>n. (None, Suc n)"
         40000000500 "0::nat"]
  by (simp add: time_Since_def time_Sub_def maxDuration_def minDuration_def recordSuccess_def)

lemma seq_inv_step:
  assumes "seq_inv s" "is_admit ev \<longrightarrow> inflight s = 0" "cb_step s ev = Some s1"
  shows "seq_inv s1"
proof (cases ev)
  case (EvAdmit now)
  with assms show ?thesis
    by (cases "state (breaker s)")
       (auto simp: seq_inv_def allowRequest_def split: if_splits)
next
  case (EvFail now)
  with assms show ?thesis
    by (auto simp: seq_inv_def recordFailure_def Let_def split: if_splits)
next
  case EvSucceed
  with assms show ?thesis
    by (cases "state (breaker s)")
       (auto simp: seq_inv_def recordSuccess_def Let_def split: if_splits)
qed

lemma seq_inv_run:
  "seq_inv s \<Longrightarrow> one_at_a_time s evs \<Longrightarrow> cb_run s evs = Some s1 \<Longrightarrow> seq_inv s1"
proof (induction evs arbitrary: s)
  case Nil
  then show ?case by simp
next
  case (Cons ev evs)
  from Cons.prems(3) obtain s2 where s2: "cb_step s ev = Some s2" "cb_run s2 evs = Some s1"
    by (auto split: option.splits)
  from Cons.prems(2) s2(1) have "is_admit ev \<longrightarrow> inflight s = 0" "one_at_a_time s2 evs"
    by simp_all
  with Cons.prems(1) s2(1) have "seq_inv s2" by (intro seq_inv_step [of s ev s2]) simp_all
  with Cons.IH \<open>one_at_a_time s2 evs\<close> s2(2) show ?case by blast
qed

lemma seq_inv_start: "seq_inv (cb_start cfg)"
  by (simp add: seq_inv_def cb_start_def NewCircuitBreaker_def Let_def)

lemma tripped_inv_step:
  assumes "tripped_inv (breaker s)" "ev = EvSucceed \<longrightarrow> state (breaker s) \<noteq> StateOpen"
    "cb_step s ev = Some s1"
  shows "tripped_inv (breaker s1)"
proof (cases ev)
  case (EvAdmit now)
  with assms show ?thesis
    by (cases "state (breaker s)")
       (auto simp: tripped_inv_def allowRequest_def split: if_splits)
next
  case (EvFail now)
  with assms show ?thesis
    by (auto simp: tripped_inv_def recordFailure_def Let_def split: if_splits)
next
  case EvSucceed
  with assms show ?thesis
    by (cases "state (breaker s)")
       (auto simp: tripped_inv_def recordSuccess_def Let_def split: if_splits)
qed

lemma tripped_inv_run:
  "tripped_inv (breaker s) \<Longrightarrow> no_success_while_open s evs \<Longrightarrow> cb_run s evs = Some s1
     \<Longrightarrow> tripped_inv (breaker s1)"
proof (induction evs arbitrary: s)
  case Nil
  then show ?case by simp
next
  case (Cons ev evs)
  from Cons.prems(3) obtain s2 where s2: "cb_step s ev = Some s2" "cb_run s2 evs = Some s1"
    by (auto split: option.splits)
  from Cons.prems(2) s2(1) have ok: "ev = EvSucceed \<longrightarrow> state (breaker s) \<noteq> StateOpen"
    and rest: "no_success_while_open s2 evs"
    by simp_all
  from Cons.prems(1) ok s2(1) have "tripped_inv (breaker s2)" by (rule tripped_inv_step)
  with Cons.IH rest s2(2) show ?case by blast
qed

lemma tripped_inv_start: "tripped_inv (breaker (cb_start cfg))"
  by (simp add: tripped_inv_def cb_start_def NewCircuitBreaker_def Let_def)

text \<open>
  Where the invariant does hold: in every state reached from a new breaker by admissions
  and completions, overlapping or not, in which no success happens to be recorded while
  the stored state is \<open>StateOpen\<close>, a stored state of \<open>StateOpen\<close> or
  \<open>StateHalfOpen\<close> comes with a consecutive-failure counter of at least the threshold,
  and a failure recorded while the stored state is \<open>StateHalfOpen\<close> stores
  \<open>StateOpen\<close>.  The breaker does nothing to keep a success from being recorded while
  the stored state is \<open>StateOpen\<close>.
\<close>

lemma tripped_inv_without_success_while_open:
  assumes "no_success_while_open (cb_start cfg) evs" "cb_run (cb_start cfg) evs = Some s"
  shows "((state (breaker s) = StateOpen \<or> state (breaker s) = StateHalfOpen)
            \<longrightarrow> consecutiveFailures (breaker s) \<ge> failureThreshold (breaker s)) \<and>
         (state (breaker s) = StateHalfOpen
            \<longrightarrow> state (recordFailure (breaker s) now) = StateOpen)"
proof -
  have "tripped_inv (breaker s)" using tripped_inv_start assms by (rule tripped_inv_run)
  then show ?thesis by (auto simp: tripped_inv_def recordFailure_def Let_def)
qed

text \<open>
  Threshold 2, cooldown 10: two overlapping calls fail and trip the breaker, and a call
  admitted after the cooldown finds it half-open with the counter at 2.
\<close>

lemma overlapping_failures_trip_example:
  "no_success_while_open (cb_start \<lparr>FailureThreshold = 2, Cooldown = 10\<rparr>)
     [EvAdmit 0, EvAdmit 0, EvFail 1, EvFail 3, EvAdmit 20] \<and>
   cb_run (cb_start \<lparr>FailureThreshold = 2, Cooldown = 10\<rparr>)
     [EvAdmit 0, EvAdmit 0, EvFail 1, EvFail 3, EvAdmit 20] =
     Some \<lparr>breaker = \<lparr>state = StateHalfOpen, failureThreshold = 2, consecutiveFailures = 2,
                      cooldown = 10, lastFailure = 3, totalSuccesses = 0,
                      totalFailures = 2, totalRejected = 0\<rparr>,
           inflight = 1\<rparr> \<and>
   state (recordFailure \<lparr>state = StateHalfOpen, failureThreshold = 2, consecutiveFailures = 2,
                      cooldown = 10, lastFailure = 3, totalSuccesses = 0,
                      totalFailures = 2, totalRejected = 0\<rparr> 21) = StateOpen"
proof -
  have run: "cb_run (cb_start \<lparr>FailureThreshold = 2, Cooldown = 10\<rparr>)
     [EvAdmit 0, EvAdmit 0, EvFail 1, EvFail 3, EvAdmit 20] =
     Some \<lparr>breaker = \<lparr>state = StateHalfOpen, failureThreshold = 2, consecutiveFailures = 2,
                      cooldown = 10, lastFailure = 3, totalSuccesses = 0,
                      totalFailures = 2, totalRejected = 0\<rparr>,
           inflight = 1\<rparr>"
    by (simp add: cb_start_def NewCircuitBreaker_def allowRequest_def recordFailure_def
        time_Since_def time_Sub_def maxDuration_def minDuration_def Let_def)
  have ok: "no_success_while_open (cb_start \<lparr>FailureThreshold = 2, Cooldown = 10\<rparr>)
     [EvAdmit 0, EvAdmit 0, EvFail 1, EvFail 3, EvAdmit 20]"
    by (simp add: cb_start_def NewCircuitBreaker_def allowRequest_def recordFailure_def
        time_Since_def time_Sub_def maxDuration_def minDuration_def Let_def)
  from tripped_inv_without_success_while_open [OF ok run, of 21] ok run
  show ?thesis by simp
qed

text \<open>
  Calls that do not overlap never record a success while the stored state is
  \<open>StateOpen\<close>, so the invariant holds in every state they reach.
\<close>

lemma one_at_a_time_no_success_while_open:
  "seq_inv s \<Longrightarrow> one_at_a_time s evs \<Longrightarrow> no_success_while_open s evs"
proof (induction evs arbitrary: s)
  case Nil
  show ?case by simp
next
  case (Cons ev evs)
  from Cons.prems(2) obtain s1 where s1: "cb_step s ev = Some s1"
    and adm: "is_admit ev \<longrightarrow> inflight s = 0" and rest: "one_at_a_time s1 evs"
    by (auto split: option.splits)
  from Cons.prems(1) adm s1 have "seq_inv s1" by (rule seq_inv_step)
  with Cons.IH rest have "no_success_while_open s1 evs" by blast
  moreover have "ev = EvSucceed \<longrightarrow> state (breaker s) \<noteq> StateOpen"
  proof
    assume ev: "ev = EvSucceed"
    with s1 have "inflight s \<noteq> 0" by (auto split: if_splits)
    with Cons.prems(1) show "state (breaker s) \<noteq> StateOpen" by (auto simp: seq_inv_def)
  qed
  ultimately show ?case using s1 by simp
qed

lemma one_at_a_time_keeps_tripped_inv:
  assumes "one_at_a_time (cb_start cfg) evs" "cb_run (cb_start cfg) evs = Some s"
  shows "tripped_inv (breaker s)"
  using tripped_inv_start one_at_a_time_no_success_while_open [OF seq_inv_start assms(1)] assms(2)
  by (rule tripped_inv_run)

text \<open>
  Claim C9 on the code.  Threshold 2, cooldown 10.  Three calls are admitted while the
  breaker is closed; two fail and trip it, then the third succeeds: \<open>recordSuccess\<close>
  resets the counter and, the stored state not being \<open>StateHalfOpen\<close>, leaves
  \<open>StateOpen\<close> stored with the counter at 0, below the threshold.  After the cooldown the
  next admission stores \<open>StateHalfOpen\<close> with the counter still at 0, and a failure
  recorded in that state leaves \<open>StateHalfOpen\<close> stored.  The same is seen through
  \<open>Execute\<close> alone: called on the open breaker after the cooldown with a failing thunk,
  it returns the thunk's error and a breaker whose stored state is \<open>StateHalfOpen\<close> with
  the counter at 1.
\<close>

theorem breaker_success_while_open_defeats_trip:
  "cb_run (cb_start \<lparr>FailureThreshold = 2, Cooldown = 10\<rparr>)
     [EvAdmit 0, EvAdmit 0, EvAdmit 0, EvFail 1, EvFail 2, EvSucceed] =
     Some \<lparr>breaker = \<lparr>state = StateOpen, failureThreshold = 2, consecutiveFailures = 0,
                      cooldown = 10, lastFailure = 2, totalSuccesses = 1,
                      totalFailures = 2, totalRejected = 0\<rparr>,
           inflight = 0\<rparr> \<and>
   cb_run (cb_start \<lparr>FailureThreshold = 2, Cooldown = 10\<rparr>)
     [EvAdmit 0, EvAdmit 0, EvAdmit 0, EvFail 1, EvFail 2, EvSucceed, EvAdmit 20] =
     Some \<lparr>breaker = \<lparr>state = StateHalfOpen, failureThreshold = 2, consecutiveFailures = 0,
                      cooldown = 10, lastFailure = 2, totalSuccesses = 1,
                      totalFailures = 2, totalRejected = 0\<rparr>,
           inflight = 1\<rparr> \<and>
   \<not> consecutiveFailures \<lparr>state = StateHalfOpen, failureThreshold = 2, consecutiveFailures = 0,
                      cooldown = 10, lastFailure = 2, totalSuccesses = 1,
                      totalFailures = 2, totalRejected = 0\<rparr>
       \<ge> failureThreshold \<lparr>state = StateHalfOpen, failureThreshold = 2, consecutiveFailures = 0,
                      cooldown = 10, lastFailure = 2, totalSuccesses = 1,
                      totalFailures = 2, totalRejected = 0\<rparr> \<and>
   state (recordFailure \<lparr>state = StateHalfOpen, failureThreshold = 2, consecutiveFailures = 0,
                      cooldown = 10, lastFailure = 2, totalSuccesses = 1,
                      totalFailures = 2, totalRejected = 0\<rparr> 21) = StateHalfOpen \<and>
   Execute \<lparr>state = StateOpen, failureThreshold = 2, consecutiveFailures = 0,
            cooldown = 10, lastFailure = 2, totalSuccesses = 1,
            totalFailures = 2, totalRejected = 0\<rparr>
     20 (\<lambda>n. (Some ''upstream 500'', Suc n)) 21 (0::nat) =
     (Some ''upstream 500'',
      \<lparr>state = StateHalfOpen, failureThreshold = 2, consecutiveFailures = 1,
       cooldown = 10, lastFailure = 21, totalSuccesses = 1,
       totalFailures = 3, totalRejected = 0\<rparr>,
      1)"
  by (simp add: cb_start_def NewCircuitBreaker_def allowRequest_def recordFailure_def
      recordSuccess_def Execute_def time_Since_def time_Sub_def maxDuration_def
      minDuration_def Let_def)

text \<open>One call of \<open>Execute\<close> is an admission followed, if admitted, by its completion.\<close>

lemma Execute_as_events:
  "Execute cb now fn now' w = (err, cb1, w1) \<Longrightarrow>
   cb_run \<lparr>breaker = cb, inflight = 0\<rparr>
     (if fst (allowRequest cb now)
      then [EvAdmit now, (if fst (fn w) = None then EvSucceed else EvFail now')]
      else [EvAdmit now])
   = Some \<lparr>breaker = cb1, inflight = 0\<rparr>"
  by (auto simp: Execute_def split: prod.splits bool.splits option.splits if_splits)

section \<open>Properties of the retry controller\<close>

lemma Retry_loop_invocations:
  "invocations (Retry_loop env cfg fn attempt lastErr w calls)
     \<le> calls + nat (MaxRetries cfg + 1 - attempt)"
proof (induction env cfg fn attempt lastErr w calls rule: Retry_loop.induct)
  case (1 env cfg fn attempt lastErr w calls)
  show ?case
  proof (cases "attempt \<le> MaxRetries cfg")
    case False
    then show ?thesis by (subst Retry_loop.simps) simp
  next
    case le: True
    show ?thesis
    proof (cases "ctx_Err env w")
      case (Some cause)
      with le show ?thesis by (subst Retry_loop.simps) simp
    next
      case None
      obtain r w1 where fn: "fn w = (r, w1)" by (cases "fn w")
      show ?thesis
      proof (cases r)
        case rNone: None
        with le None fn show ?thesis by (subst Retry_loop.simps) simp
      next
        case (Some e)
        show ?thesis
        proof (cases "attempt = MaxRetries cfg \<or> \<not> IsServerError (Some e)")
          case True
          with le None fn Some show ?thesis by (subst Retry_loop.simps) auto
        next
          case False
          obtain u w2 where rnd: "rand_Float64 env w1 = (u, w2)"
            by (cases "rand_Float64 env w1")
          obtain c w3 where wt:
            "wait env (calculateDelay attempt (BaseDelay cfg) (MaxDelay cfg) u) w2 = (c, w3)"
            by (cases "wait env (calculateDelay attempt (BaseDelay cfg) (MaxDelay cfg) u) w2")
          show ?thesis
          proof (cases c)
            case cSome: (Some cause)
            with le None fn Some False rnd wt show ?thesis
              by (subst Retry_loop.simps) simp
          next
            case cNone: None
            have "invocations (Retry_loop env cfg fn (attempt + 1) (Some e) w3 (calls + 1))
                    \<le> calls + 1 + nat (MaxRetries cfg + 1 - (attempt + 1))"
              using "1.IH" le None fn Some False rnd wt cNone
              by simp
            moreover have "Retry_loop env cfg fn attempt lastErr w calls
                             = Retry_loop env cfg fn (attempt + 1) (Some e) w3 (calls + 1)"
              using le None fn Some False rnd wt cNone by (subst Retry_loop.simps) simp
            ultimately show ?thesis using le False by simp
          qed
        qed
      qed
    qed
  qed
qed

text \<open>
  Claim C6.  For a configuration with \<open>MaxRetries \<ge> 0\<close> and every thunk, context, random
  source and world, one call of \<open>Retry\<close> invokes the thunk at most
  \<open>MaxRetries + 1\<close> times.
\<close>

theorem Retry_at_most_max_retries_plus_one:
  "0 \<le> MaxRetries cfg \<Longrightarrow> invocations (Retry env cfg fn w) \<le> nat (MaxRetries cfg) + 1"
  using Retry_loop_invocations [of env cfg fn 0 None w 0]
  by (simp add: Retry_def nat_add_distrib)

text \<open>A thunk that always fails with a 503, under a budget of two retries.\<close>

theorem Retry_at_most_max_retries_plus_one_witness:
  "0 \<le> MaxRetries \<lparr>MaxRetries = 2, BaseDelay = 500000000, MaxDelay = 30000000000\<rparr> \<and>
   invocations
     (Retry \<lparr>ctx_Err = (\<lambda>w. None), rand_Float64 = (\<lambda>w. (1 / 2, w)), wait = (\<lambda>d w. (None, w))\<rparr>
        \<lparr>MaxRetries = 2, BaseDelay = 500000000, MaxDelay = 30000000000\<rparr>
        (\<lambda>w. (Some ''upstream 503'', w + 1)) (0::nat))
     \<le> nat (MaxRetries \<lparr>MaxRetries = 2, BaseDelay = 500000000, MaxDelay = 30000000000\<rparr>) + 1"
  using Retry_at_most_max_retries_plus_one
    [of "\<lparr>MaxRetries = 2, BaseDelay = 500000000, MaxDelay = 30000000000\<rparr>"
        "\<lparr>ctx_Err = (\<lambda>w. None), rand_Float64 = (\<lambda>w. (1 / 2, w)), wait = (\<lambda>d w. (None, w))\<rparr>"
        "\<lambda>w. (Some ''upstream 503'', w + 1)" "0::nat"]
  by simp

text \<open>In that run the bound is attained.\<close>

lemma Retry_example_three_invocations:
  "Retry \<lparr>ctx_Err = (\<lambda>w. None), rand_Float64 = (\<lambda>w. (1 / 2, w)), wait = (\<lambda>d w. (None, w))\<rparr>
        \<lparr>MaxRetries = 2, BaseDelay = 500000000, MaxDelay = 30000000000\<rparr>
        (\<lambda>w. (Some ''upstream 503'', w + 1)) (0::nat)
   = \<lparr>result_err = Some ''retry: max retries (2) exceeded: upstream 503'',
      result_world = 3, invocations = 3\<rparr>"
  by (simp add: Retry_def Retry_loop.simps IsServerError_def contains_def searchString_def
      searchString_from.simps max_retries_exceeded_def show_int_def show_nat.simps digit_def)

lemma Pow2_pos: "0 < Pow2 a"
  by (simp add: Pow2_def)

text \<open>
  Claim C7, with the upper bound the code has.  For a base delay above zero, a maximum
  delay of at least the base delay and a draw in \<open>[0, 1)\<close>, the computed sleep is at least
  1 ms and at most the larger of the maximum delay and 1 ms; so it is at most the maximum
  delay whenever that is at least 1 ms.
\<close>

theorem calculateDelay_bounds:
  assumes "0 < baseDelay" "baseDelay \<le> maxDelay" "0 \<le> u" "u < 1"
  shows "Millisecond \<le> calculateDelay attempt baseDelay maxDelay u \<and>
         calculateDelay attempt baseDelay maxDelay u \<le> max maxDelay Millisecond"
proof -
  define e where "e = (if real_of_int baseDelay * Pow2 attempt > real_of_int maxDelay
                       then real_of_int maxDelay else real_of_int baseDelay * Pow2 attempt)"
  have cd: "calculateDelay attempt baseDelay maxDelay u
              = (if Duration_of (u * e) < Millisecond then Millisecond else Duration_of (u * e))"
    by (simp add: calculateDelay_def e_def Let_def)
  have "0 < real_of_int baseDelay * Pow2 attempt" using assms(1) Pow2_pos by simp
  moreover have "0 < real_of_int maxDelay" using assms(1,2) by simp
  ultimately have epos: "0 < e" by (simp add: e_def)
  have ele: "e \<le> real_of_int maxDelay" by (simp add: e_def)
  have "u * e \<le> e" using assms(3,4) epos by (simp add: mult_left_le_one_le)
  with ele have ule: "u * e \<le> real_of_int maxDelay" by linarith
  have unn: "0 \<le> u * e" using assms(3) epos by simp
  then have "Duration_of (u * e) = \<lfloor>u * e\<rfloor>" by (simp add: Duration_of_def)
  moreover have "\<lfloor>u * e\<rfloor> \<le> maxDelay" using ule by (simp add: floor_le_iff)
  ultimately have "Duration_of (u * e) \<le> maxDelay" by simp
  then show ?thesis unfolding cd by auto
qed

text \<open>The default delays, second attempt, draw 3/4.\<close>

theorem calculateDelay_bounds_witness:
  "(0::int) < 500000000 \<and> (500000000::int) \<le> 30000000000 \<and> (0::real) \<le> 3 / 4 \<and>
   (3 / 4 :: real) < 1 \<and>
   Millisecond \<le> calculateDelay 1 500000000 30000000000 (3 / 4) \<and>
   calculateDelay 1 500000000 30000000000 (3 / 4) \<le> max 30000000000 Millisecond"
  using calculateDelay_bounds [of 500000000 30000000000 "3 / 4" 1]
  by simp

lemma calculateDelay_example: "calculateDelay 1 500000000 30000000000 (3 / 4) = 750000000"
  by (simp add: calculateDelay_def Pow2_def Duration_of_def Millisecond_def Let_def)

text \<open>
  With base and maximum delay of one nanosecond the sleep is 1 ms, a million times the
  maximum delay.
\<close>

theorem calculateDelay_exceeds_small_max_counterexample:
  "(0::int) < 1 \<and> (1::int) \<le> 1 \<and>
   calculateDelay 0 1 1 0 = 1000000 \<and> \<not> calculateDelay 0 1 1 0 \<le> 1"
  by (simp add: calculateDelay_def Pow2_def Duration_of_def Millisecond_def Let_def)

section \<open>Properties of the semantic cache\<close>

text \<open>
  \<open>Store\<close> writes the response under the cache key and upserts a point whose identifier
  is the fresh UUID; \<open>Lookup\<close> reads Redis under the identifier of the point found.
  Whenever the search returns the upserted point and the UUID is not itself a key of the
  response store, the lookup misses.
\<close>

lemma Lookup_after_Store_general:
  assumes "Embed svc prompt = Inr v"
    and "redis_fault svc = None" and "upsert_fault svc = None"
    and "qdrant_search svc
           (qdrant st @ [\<lparr>point_ID = uuid, point_Vector = v,
                          point_Payload = [(''cache_key'', cacheKeyFromPrompt svc prompt)]\<rparr>])
           v threshold
         = Inr ((\<lparr>point_ID = uuid, point_Vector = v,
                  point_Payload = [(''cache_key'', cacheKeyFromPrompt svc prompt)]\<rparr>, score) # rest)"
    and "entries (redis st) uuid = None"
    and "uuid \<noteq> cacheKeyFromPrompt svc prompt"
  shows "Lookup threshold svc now' prompt (Store svc now uuid prompt resp st)
           = \<lparr>Response = zero_Response, Hit = False\<rparr>"
  using assms
  by (simp add: Lookup_def Store_def Search_def Upsert_def redis_Get_def redis_Set_def Let_def)

text \<open>
  Claim C1 on the code.  A response is stored for the prompt \<open>what is 2+2?\<close> in an empty
  cache at instant 1000 with a one-hour lifetime, no request failing, and looked up at
  instant 2000 with the same embedding.  The response is in Redis under the prompt's cache
  key, the vector search finds the upserted point with score 1, and the lookup is a miss:
  it asks Redis for the point's UUID.  This holds for every hash function.
\<close>

theorem Lookup_after_Store_reads_point_id:
  "redis_Get
     \<lparr>Embed = (\<lambda>t. Inr [1, 0]), qdrant_search = exact_match_search, sha256_Sum256 = sha,
      redis_fault = None, upsert_fault = None\<rparr>
     (redis (Store \<lparr>Embed = (\<lambda>t. Inr [1, 0]), qdrant_search = exact_match_search,
                    sha256_Sum256 = sha, redis_fault = None, upsert_fault = None\<rparr>
               1000 ''123e4567-e89b-12d3-a456-426614174000'' ''what is 2+2?''
               \<lparr>Text = ''4'', PromptTokens = 3, OutputTokens = 1\<rparr>
               \<lparr>redis = \<lparr>entries = Map.empty, ttl = 3600 * Second\<rparr>, qdrant = []\<rparr>))
     2000
     (cacheKeyFromPrompt \<lparr>Embed = (\<lambda>t. Inr [1, 0]), qdrant_search = exact_match_search,
                    sha256_Sum256 = sha, redis_fault = None, upsert_fault = None\<rparr>
        ''what is 2+2?'')
     = Inr (Some \<lparr>Text = ''4'', PromptTokens = 3, OutputTokens = 1\<rparr>) \<and>
   Search \<lparr>Embed = (\<lambda>t. Inr [1, 0]), qdrant_search = exact_match_search, sha256_Sum256 = sha,
           redis_fault = None, upsert_fault = None\<rparr>
     (qdrant (Store \<lparr>Embed = (\<lambda>t. Inr [1, 0]), qdrant_search = exact_match_search,
                    sha256_Sum256 = sha, redis_fault = None, upsert_fault = None\<rparr>
               1000 ''123e4567-e89b-12d3-a456-426614174000'' ''what is 2+2?''
               \<lparr>Text = ''4'', PromptTokens = 3, OutputTokens = 1\<rparr>
               \<lparr>redis = \<lparr>entries = Map.empty, ttl = 3600 * Second\<rparr>, qdrant = []\<rparr>))
     [1, 0] (95 / 100)
     = Inr \<lparr>ID = ''123e4567-e89b-12d3-a456-426614174000'', Score = 1, Found = True\<rparr> \<and>
   Lookup (95 / 100)
     \<lparr>Embed = (\<lambda>t. Inr [1, 0]), qdrant_search = exact_match_search, sha256_Sum256 = sha,
      redis_fault = None, upsert_fault = None\<rparr>
     2000 ''what is 2+2?''
     (Store \<lparr>Embed = (\<lambda>t. Inr [1, 0]), qdrant_search = exact_match_search,
                    sha256_Sum256 = sha, redis_fault = None, upsert_fault = None\<rparr>
               1000 ''123e4567-e89b-12d3-a456-426614174000'' ''what is 2+2?''
               \<lparr>Text = ''4'', PromptTokens = 3, OutputTokens = 1\<rparr>
               \<lparr>redis = \<lparr>entries = Map.empty, ttl = 3600 * Second\<rparr>, qdrant = []\<rparr>)
     = \<lparr>Response = zero_Response, Hit = False\<rparr>"
  by (simp add: Lookup_def Store_def Search_def Upsert_def redis_Get_def redis_Set_def Let_def
      exact_match_search_def cacheKeyFromPrompt_def Second_def)

section \<open>Properties of the provider streams\<close>

text \<open>
  Claim C2 on the code.  When the Gemini body fails to decode with an error other than
  end of input, the stream is an error chunk followed by a chunk with \<open>Done\<close> set: two
  terminal events.  When the OpenAI body ends without a \<open>[DONE]\<close> line and without a
  scanner error, the stream holds no terminal event.
\<close>

theorem Gemini_decode_error_two_terminal_chunks:
  "Gemini_InferStream (\<lambda>i. None) [DecodeError ''unexpected EOF''] =
     [\<lparr>chunk_Text = [], chunk_Done = False, chunk_PromptTokens = 0, chunk_OutputTokens = 0,
       chunk_Err = Some ''gemini: stream decode: unexpected EOF''\<rparr>,
      \<lparr>chunk_Text = [], chunk_Done = True, chunk_PromptTokens = 0, chunk_OutputTokens = 0,
       chunk_Err = None\<rparr>] \<and>
   terminal_events (Gemini_InferStream (\<lambda>i. None) [DecodeError ''unexpected EOF'']) = 2 \<and>
   OpenAI_InferStream unmarshal (\<lambda>i. None) [] None = [] \<and>
   terminal_events (OpenAI_InferStream unmarshal (\<lambda>i. None) [] None) = 0"
  by (simp add: Gemini_InferStream_def OpenAI_InferStream_def terminal_events_def terminal_def
      zero_StreamChunk_def)

section \<open>Properties of the cache metrics\<close>

lemma handler_cache_step_effect:
  "CacheLookupsTotal (handler_cache_step (r, hit) m) = CacheLookupsTotal m + 2 \<and>
   CacheHitsTotal (handler_cache_step (r, hit) m) = CacheHitsTotal m + (if hit then 1 else 0) \<and>
   totalLookups (handler_cache_step (r, hit) m) = totalLookups m + 1 \<and>
   totalHits (handler_cache_step (r, hit) m) = totalHits m + (if hit then 1 else 0) \<and>
   CacheHitRatio (handler_cache_step (r, hit) m)
     = real (totalHits (handler_cache_step (r, hit) m))
       / real (totalLookups (handler_cache_step (r, hit) m))"
  by (cases r) (simp_all add: Infer_cache_step_def InferStream_cache_step_def
      RecordCacheLookup_def Let_def)

lemma run_lookups_counts:
  "CacheLookupsTotal (run_lookups m ls) = CacheLookupsTotal m + 2 * length ls \<and>
   CacheHitsTotal (run_lookups m ls) = CacheHitsTotal m + hits_in ls \<and>
   totalLookups (run_lookups m ls) = totalLookups m + length ls \<and>
   totalHits (run_lookups m ls) = totalHits m + hits_in ls"
proof (induction ls arbitrary: m)
  case Nil
  show ?case by (simp add: hits_in_def)
next
  case (Cons l ls)
  obtain r hit where l: "l = (r, hit)" by (cases l)
  show ?case
    using Cons.IH [of "handler_cache_step (r, hit) m"] handler_cache_step_effect [of r hit m]
    by (simp add: l hits_in_def)
qed

lemma run_lookups_ratio:
  "ls \<noteq> [] \<Longrightarrow>
   CacheHitRatio (run_lookups m ls)
     = real (totalHits (run_lookups m ls)) / real (totalLookups (run_lookups m ls))"
proof (induction ls arbitrary: m)
  case Nil
  then show ?case by simp
next
  case (Cons l ls)
  obtain r hit where l: "l = (r, hit)" by (cases l)
  show ?case
  proof (cases "ls = []")
    case True
    then show ?thesis using handler_cache_step_effect [of r hit m] by (simp add: l)
  next
    case False
    then show ?thesis using Cons.IH [of "handler_cache_step l m"] by simp
  qed
qed

text \<open>
  Claim C10.  One cache step of either handler adds 2 to \<open>cache_lookups_total\<close>, at most 1
  to \<open>cache_hits_total\<close>, and 1 to the lookup tally and 1 or 0 to the hit tally behind
  the ratio gauge.  After any sequence of lookups from zeroed metrics,
  \<open>cache_lookups_total\<close> is twice the number of lookups, \<open>cache_hits_total\<close> is the
  number of hits and never exceeds \<open>cache_lookups_total\<close>, the two tallies are the numbers
  of lookups and hits, and after at least one lookup the gauge is the quotient of the two
  tallies.
\<close>

theorem cache_lookups_counted_twice:
  "CacheLookupsTotal (handler_cache_step (r, hit) m) = CacheLookupsTotal m + 2 \<and>
   CacheHitsTotal (handler_cache_step (r, hit) m) \<le> CacheHitsTotal m + 1 \<and>
   totalLookups (handler_cache_step (r, hit) m) = totalLookups m + 1 \<and>
   totalHits (handler_cache_step (r, hit) m) = totalHits m + (if hit then 1 else 0) \<and>
   CacheLookupsTotal (run_lookups zero_Metrics ls) = 2 * length ls \<and>
   CacheHitsTotal (run_lookups zero_Metrics ls) = hits_in ls \<and>
   CacheHitsTotal (run_lookups zero_Metrics ls) \<le> CacheLookupsTotal (run_lookups zero_Metrics ls) \<and>
   totalLookups (run_lookups zero_Metrics ls) = length ls \<and>
   totalHits (run_lookups zero_Metrics ls) = hits_in ls \<and>
   (ls \<noteq> [] \<longrightarrow>
      CacheHitRatio (run_lookups zero_Metrics ls)
        = real (totalHits (run_lookups zero_Metrics ls))
          / real (totalLookups (run_lookups zero_Metrics ls)))"
proof -
  have "hits_in ls \<le> length ls" by (simp add: hits_in_def)
  then show ?thesis
    using handler_cache_step_effect [of r hit m] run_lookups_counts [of zero_Metrics ls]
      run_lookups_ratio [of ls zero_Metrics]
    by (simp add: zero_Metrics_def)
qed

text \<open>Three lookups, the first a hit.\<close>

theorem cache_lookups_counted_twice_witness:
  "[(Unary, True), (Streaming, False), (Unary, False)] \<noteq> [] \<and>
   run_lookups zero_Metrics [(Unary, True), (Streaming, False), (Unary, False)]
     = \<lparr>CacheHitsTotal = 1, CacheLookupsTotal = 6, CacheHitRatio = 1 / 3, totalHits = 1,
        totalLookups = 3\<rparr>"
  using cache_lookups_counted_twice [of Unary True zero_Metrics
      "[(Unary, True), (Streaming, False), (Unary, False)]"]
  by (simp add: zero_Metrics_def Infer_cache_step_def InferStream_cache_step_def
      RecordCacheLookup_def Let_def)

end
